theory Spec2Isabelle
  imports Main "HOL-Library.Multiset"
begin

section \<open>Generic key-value maps: an unordered map, an insertion-ordered map, derived operations\<close>

text \<open>
  The Go package \<^verbatim>\<open>maps\<close> has two concrete maps, \<^verbatim>\<open>UnorderedMap[K, V]\<close> and
  \<^verbatim>\<open>OrderedMap[K, V]\<close>, which declare the primitives \<^verbatim>\<open>Load\<close>, \<^verbatim>\<open>Store\<close>,
  \<^verbatim>\<open>Delete\<close>, \<^verbatim>\<open>Range\<close> (and \<^verbatim>\<open>Len\<close>), and a helper \<^verbatim>\<open>DefaultAbstractMap[K, V]\<close>
  which both embed and which derives the other operations by calling back into the
  concrete map through its field \<^verbatim>\<open>impl\<close>.

  Conventions of the embedding:
  \<^item> the key type \<^verbatim>\<open>K comparable\<close> is a HOL type \<open>'k\<close> together with a descriptor
    (\<open>'k ktype\<close>) of what the instantiation does at run time: which keys are equal to
    themselves under \<^verbatim>\<open>==\<close> (a NaN is not) and which keys can be hashed (an interface
    key that holds a slice cannot: using it in a map panics). Keys that \<^verbatim>\<open>==\<close>
    identifies are one HOL value;
  \<^item> the value type \<^verbatim>\<open>V any\<close> is a HOL type \<open>'v\<close> together with a descriptor
    (\<open>'v vtype\<close>): the zero value and the comparison of two values boxed into
    \<^verbatim>\<open>any\<close>, which panics when their dynamic type is not comparable;
  \<^item> a method that mutates its receiver returns the new receiver;
  \<^item> a panic is \<open>Inl\<close> of an \<open>error\<close>;
  \<^item> a visitor \<^verbatim>\<open>func(key K, value V) bool\<close> is a closure: it gets the state it has
    captured and returns the updated state next to its boolean. It does not call back
    into the map it ranges over.
\<close>

subsection \<open>Panics, key types, value types\<close>

datatype error =
  NotImplemented   \<comment> \<open>\<^verbatim>\<open>panic("not implemented")\<close>\<close>
| NilDereference   \<comment> \<open>runtime error: invalid memory address or nil pointer dereference\<close>
| Uncomparable     \<comment> \<open>runtime error: comparing uncomparable type\<close>
| Unhashable       \<comment> \<open>runtime error: hash of unhashable type\<close>

record 'k ktype =
  self_equal :: "'k \<Rightarrow> bool"   \<comment> \<open>\<^verbatim>\<open>k == k\<close>\<close>
  hashable :: "'k \<Rightarrow> bool"     \<comment> \<open>hashing \<open>k\<close> does not panic\<close>

record 'v vtype =
  zero_value :: 'v                                  \<comment> \<open>\<^verbatim>\<open>var zero V\<close>\<close>
  iface_eq :: "'v \<Rightarrow> 'v \<Rightarrow> bool option"   \<comment> \<open>\<^verbatim>\<open>any(a) == any(b)\<close>, \<open>None\<close> when it panics\<close>

text \<open>Instantiations. \<^verbatim>\<open>int\<close> and \<^verbatim>\<open>string\<close>: every key equals itself and hashes, and
  the comparison of two values is equality.\<close>

definition int_keys :: "int ktype" where
  "int_keys = \<lparr>self_equal = (\<lambda>k. True), hashable = (\<lambda>k. True)\<rparr>"

definition string_keys :: "string ktype" where
  "string_keys = \<lparr>self_equal = (\<lambda>k. True), hashable = (\<lambda>k. True)\<rparr>"

definition int_values :: "int vtype" where
  "int_values = \<lparr>zero_value = 0, iface_eq = (\<lambda>a b. Some (a = b))\<rparr>"

text \<open>\<^verbatim>\<open>float64\<close>, as far as it matters here: numbers, and NaN, which differs from
  every value and from itself.\<close>

datatype float64 = Number int | NaN

definition float64_keys :: "float64 ktype" where
  "float64_keys = \<lparr>self_equal = (\<lambda>k. k \<noteq> NaN), hashable = (\<lambda>k. True)\<rparr>"

definition float64_values :: "float64 vtype" where
  "float64_values = \<lparr>zero_value = Number 0, iface_eq = (\<lambda>a b. Some (a = b \<and> a \<noteq> NaN))\<rparr>"

text \<open>A slice type \<^verbatim>\<open>[]int\<close> as value type: the zero value is the nil slice, and
  comparing two boxed slices panics whatever they hold.\<close>

definition slice_values :: "int list vtype" where
  "slice_values = \<lparr>zero_value = [], iface_eq = (\<lambda>a b. None)\<rparr>"

text \<open>The interface type \<^verbatim>\<open>any\<close>, holding nil, an \<^verbatim>\<open>int\<close> or a \<^verbatim>\<open>[]int\<close>. As a key, a
  slice cannot be hashed. As values, two slices cannot be compared; values of different
  dynamic types are different.\<close>

datatype boxed = BoxedNil | BoxedInt int | BoxedSlice "int list"

definition any_keys :: "boxed ktype" where
  "any_keys =
     \<lparr>self_equal = (\<lambda>k. True),
      hashable = (\<lambda>k. case k of BoxedSlice s \<Rightarrow> False | _ \<Rightarrow> True)\<rparr>"

definition any_values :: "boxed vtype" where
  "any_values =
     \<lparr>zero_value = BoxedNil,
      iface_eq = (\<lambda>a b. case (a, b) of (BoxedSlice s, BoxedSlice t) \<Rightarrow> None | _ \<Rightarrow> Some (a = b))\<rparr>"

subsection \<open>Go's built-in map\<close>

text \<open>
  A \<^verbatim>\<open>map[K]V\<close> holds entries. Looking a key up, assigning to it and deleting it hash the
  key first (and panic if that fails) and then search an entry whose key is \<^verbatim>\<open>==\<close> to it.
  A key that is not equal to itself is never found: assigning to it adds an entry every
  time, and deleting it does nothing. The model keeps the entries in a list; the order
  of the list is internal, only \<open>slots\<close> below reads positions. No two entries have keys
  that are \<^verbatim>\<open>==\<close> (\<open>entries_ok\<close> below).
\<close>

type_synonym ('k, 'v) gomap = "('k \<times> 'v) list"

definition map_index :: "'k ktype \<Rightarrow> ('k, 'v) gomap \<Rightarrow> 'k \<Rightarrow> error + 'v option" where
  \<comment> \<open>\<^verbatim>\<open>v, ok := m[k]\<close>\<close>
  "map_index K m k =
     (if hashable K k then Inr (if self_equal K k then map_of m k else None)
      else Inl Unhashable)"

definition map_assign :: "'k ktype \<Rightarrow> ('k, 'v) gomap \<Rightarrow> 'k \<Rightarrow> 'v \<Rightarrow> error + ('k, 'v) gomap" where
  \<comment> \<open>\<^verbatim>\<open>m[k] = v\<close>\<close>
  "map_assign K m k v =
     (if hashable K k then
        Inr (if self_equal K k \<and> k \<in> fst ` set m
             then map (\<lambda>p. if fst p = k then (k, v) else p) m
             else m @ [(k, v)])
      else Inl Unhashable)"

definition map_delete :: "'k ktype \<Rightarrow> ('k, 'v) gomap \<Rightarrow> 'k \<Rightarrow> error + ('k, 'v) gomap" where
  \<comment> \<open>\<^verbatim>\<open>delete(m, k)\<close>\<close>
  "map_delete K m k =
     (if hashable K k then Inr (if self_equal K k then filter (\<lambda>p. fst p \<noteq> k) m else m)
      else Inl Unhashable)"

text \<open>
  \<^verbatim>\<open>for k, v := range m\<close> walks the entries in an order the runtime chooses anew on every
  call. The order is an argument of the model: \<open>ord\<close> lists the positions of the entries
  in the order of this traversal; it is an enumeration of the map when \<open>enumerates\<close>
  holds (a position the map does not have yields no pair). The visitor cannot change
  the map, so the pairs are read before the loop starts.
\<close>

definition slots :: "nat list \<Rightarrow> ('k, 'v) gomap \<Rightarrow> ('k \<times> 'v) list" where
  "slots ord m = List.map_filter (\<lambda>i. if i < length m then Some (m ! i) else None) ord"

definition enumerates :: "nat list \<Rightarrow> ('k, 'v) gomap \<Rightarrow> bool" where
  "enumerates ord m = (distinct ord \<and> set ord = {..<length m})"

subsection \<open>Visitors\<close>

type_synonym ('k, 'v, 'a) visitor = "'k \<Rightarrow> 'v \<Rightarrow> 'a \<Rightarrow> bool \<times> 'a"

text \<open>The loop shared by every \<^verbatim>\<open>Range\<close>:
  \<^verbatim>\<open>for k, v := range pairs { if !f(k, v) { break } }\<close>.\<close>

fun visit :: "('k, 'v, 'a) visitor \<Rightarrow> ('k \<times> 'v) list \<Rightarrow> 'a \<Rightarrow> 'a" where
  "visit f [] acc = acc"
| "visit f ((k, v) # ps) acc =
     (case f k v acc of
        (True, acc') \<Rightarrow> visit f ps acc'
      | (False, acc') \<Rightarrow> acc')"

text \<open>A visitor instrumented to count its invocations, as the tests do with
  \<^verbatim>\<open>count++\<close> in the callback.\<close>

definition counting :: "('k, 'v, 'a) visitor \<Rightarrow> ('k, 'v, nat \<times> 'a) visitor" where
  "counting f k v = (\<lambda>(n, acc). case f k v acc of (continue, acc') \<Rightarrow> (continue, (Suc n, acc')))"

definition counting1 :: "('x \<Rightarrow> 'a \<Rightarrow> bool \<times> 'a) \<Rightarrow> 'x \<Rightarrow> nat \<times> 'a \<Rightarrow> bool \<times> nat \<times> 'a" where
  "counting1 f x = (\<lambda>(n, acc). case f x acc of (continue, acc') \<Rightarrow> (continue, (Suc n, acc')))"

text \<open>The visitor that records every pair it sees and never stops.\<close>

definition collect :: "('k, 'v, ('k \<times> 'v) list) visitor" where
  "collect k v acc = (True, acc @ [(k, v)])"

subsection \<open>DefaultAbstractMap: the struct\<close>

text \<open>
  \<^verbatim>\<open>impl AbstractMap[K, V]\<close> is an interface value: nil, or a pointer to a map. The
  constructors of the concrete maps store the map itself there
  (\<^verbatim>\<open>um.DefaultAbstractMap = NewDefaultAbstractMap(um)\<close>): the pointer back to the struct
  that embeds the helper. Of the other maps it may point to, one is modelled: a scaffold,
  a struct that declares no primitive of its own.
\<close>

datatype iface = NilIface | Self | ToScaffold

record DefaultAbstractMap =
  impl :: iface

definition NewDefaultAbstractMap :: "iface \<Rightarrow> DefaultAbstractMap" where
  "NewDefaultAbstractMap i = \<lparr>impl = i\<rparr>"

subsection \<open>UnorderedMap\<close>

record ('k, 'v) UnorderedMap =
  um_DefaultAbstractMap :: "DefaultAbstractMap option"   \<comment> \<open>embedded \<^verbatim>\<open>*DefaultAbstractMap\<close>, \<open>None\<close> is nil\<close>
  um_m :: "('k, 'v) gomap"                               \<comment> \<open>field \<^verbatim>\<open>m map[K]V\<close>\<close>

definition NewUnorderedMap :: "('k, 'v) UnorderedMap" where
  "NewUnorderedMap =
     (let um = \<lparr>um_DefaultAbstractMap = None, um_m = []\<rparr>
      in um\<lparr>um_DefaultAbstractMap := Some (NewDefaultAbstractMap Self)\<rparr>)"

definition UnorderedMap_Delete ::
  "'k ktype \<Rightarrow> ('k, 'v) UnorderedMap \<Rightarrow> 'k \<Rightarrow> error + ('k, 'v) UnorderedMap" where
  "UnorderedMap_Delete K um k =
     (case map_delete K (um_m um) k of
        Inl e \<Rightarrow> Inl e
      | Inr m' \<Rightarrow> Inr (um\<lparr>um_m := m'\<rparr>))"

definition UnorderedMap_Len :: "('k, 'v) UnorderedMap \<Rightarrow> nat" where
  "UnorderedMap_Len um = length (um_m um)"

definition UnorderedMap_Load ::
  "'k ktype \<Rightarrow> 'v vtype \<Rightarrow> ('k, 'v) UnorderedMap \<Rightarrow> 'k \<Rightarrow> error + 'v \<times> bool" where
  "UnorderedMap_Load K V um k =
     (case map_index K (um_m um) k of
        Inl e \<Rightarrow> Inl e
      | Inr (Some v) \<Rightarrow> Inr (v, True)
      | Inr None \<Rightarrow> Inr (zero_value V, False))"

definition UnorderedMap_Range ::
  "nat list \<Rightarrow> ('k, 'v) UnorderedMap \<Rightarrow> ('k, 'v, 'a) visitor \<Rightarrow> 'a \<Rightarrow> 'a" where
  "UnorderedMap_Range ord um f acc = visit f (slots ord (um_m um)) acc"

definition UnorderedMap_Store ::
  "'k ktype \<Rightarrow> ('k, 'v) UnorderedMap \<Rightarrow> 'k \<Rightarrow> 'v \<Rightarrow> error + ('k, 'v) UnorderedMap" where
  "UnorderedMap_Store K um k v =
     (case map_assign K (um_m um) k v of
        Inl e \<Rightarrow> Inl e
      | Inr m' \<Rightarrow> Inr (um\<lparr>um_m := m'\<rparr>))"

subsection \<open>The doubly-linked list of \<^verbatim>\<open>container/list\<close>\<close>

text \<open>
  \<^verbatim>\<open>container/list\<close> is Go's standard library. What \<^verbatim>\<open>OrderedMap\<close> uses of it:
  \<^verbatim>\<open>list.New\<close>, \<^verbatim>\<open>PushBack\<close>, \<^verbatim>\<open>Remove\<close>, the traversal \<^verbatim>\<open>Front\<close>/\<^verbatim>\<open>Next\<close>, and the field
  \<^verbatim>\<open>Value\<close> of an element. An element is a heap object known by its address; the
  index of the map and the list share it. The model keeps the addresses of the linked
  elements front to back, the heap cell of every element allocated so far (its
  \<^verbatim>\<open>Value\<close>, here always the \<^verbatim>\<open>*entry\<close> made for it), and the next free address. An
  element that is unlinked keeps its cell, as an object that is still referenced does.
  A pointer in Go always leads to an allocated object, so an address without a cell has
  no counterpart in the program: the \<open>None\<close> branches below only keep the functions
  total, and no state reached from \<open>NewOrderedMap\<close> takes them (\<open>OrderedMap_inv\<close>).
\<close>

type_synonym elem = nat

record ('k, 'v) entry =
  ekey :: 'k     \<comment> \<open>field \<^verbatim>\<open>key\<close>\<close>
  evalue :: 'v   \<comment> \<open>field \<^verbatim>\<open>value\<close>\<close>

record 'a List =
  elems :: "elem list"
  cells :: "elem \<rightharpoonup> 'a"
  free :: elem

definition list_New :: "'a List" where
  "list_New = \<lparr>elems = [], cells = Map.empty, free = 0\<rparr>"

definition PushBack :: "'a \<Rightarrow> 'a List \<Rightarrow> elem \<times> 'a List" where
  "PushBack x l =
     (free l, l\<lparr>elems := elems l @ [free l], cells := (cells l)(free l \<mapsto> x), free := Suc (free l)\<rparr>)"

definition Remove :: "elem \<Rightarrow> 'a List \<Rightarrow> 'a List" where
  \<comment> \<open>\<^verbatim>\<open>if e.list == l { l.remove(e) }\<close>\<close>
  "Remove e l = (if e \<in> set (elems l) then l\<lparr>elems := remove1 e (elems l)\<rparr> else l)"

text \<open>The values met by \<^verbatim>\<open>for e := l.Front(); e != nil; e = e.Next()\<close>.\<close>

definition values_of :: "'a List \<Rightarrow> 'a list" where
  "values_of l = List.map_filter (cells l) (elems l)"

subsection \<open>OrderedMap\<close>

record ('k, 'v) OrderedMap =
  om_DefaultAbstractMap :: "DefaultAbstractMap option"   \<comment> \<open>embedded \<^verbatim>\<open>*DefaultAbstractMap\<close>\<close>
  om_m :: "('k, elem) gomap"                             \<comment> \<open>field \<^verbatim>\<open>m map[K]*list.Element\<close>\<close>
  om_l :: "('k, 'v) entry List"                          \<comment> \<open>field \<^verbatim>\<open>l *list.List\<close>\<close>

definition NewOrderedMap :: "('k, 'v) OrderedMap" where
  "NewOrderedMap =
     (let om = \<lparr>om_DefaultAbstractMap = None, om_m = [], om_l = list_New\<rparr>
      in om\<lparr>om_DefaultAbstractMap := Some (NewDefaultAbstractMap Self)\<rparr>)"

text \<open>\<^verbatim>\<open>element.Value.(*entry[K, V]).value = value\<close>: a write through the pointer.\<close>

definition assign_value :: "elem \<Rightarrow> 'v \<Rightarrow> ('k, 'v) entry List \<Rightarrow> ('k, 'v) entry List" where
  "assign_value e v l =
     (case cells l e of
        Some en \<Rightarrow> l\<lparr>cells := (cells l)(e \<mapsto> en\<lparr>evalue := v\<rparr>)\<rparr>
      | None \<Rightarrow> l)"

definition OrderedMap_Store ::
  "'k ktype \<Rightarrow> ('k, 'v) OrderedMap \<Rightarrow> 'k \<Rightarrow> 'v \<Rightarrow> error + ('k, 'v) OrderedMap" where
  "OrderedMap_Store K om k v =
     (case map_index K (om_m om) k of
        Inl e \<Rightarrow> Inl e
      | Inr (Some element) \<Rightarrow> Inr (om\<lparr>om_l := assign_value element v (om_l om)\<rparr>)
      | Inr None \<Rightarrow>
          (case PushBack \<lparr>ekey = k, evalue = v\<rparr> (om_l om) of
             (element, l') \<Rightarrow>
               (case map_assign K (om_m om) k element of
                  Inl e \<Rightarrow> Inl e
                | Inr m' \<Rightarrow> Inr (om\<lparr>om_m := m', om_l := l'\<rparr>))))"

definition OrderedMap_Load ::
  "'k ktype \<Rightarrow> 'v vtype \<Rightarrow> ('k, 'v) OrderedMap \<Rightarrow> 'k \<Rightarrow> error + 'v \<times> bool" where
  "OrderedMap_Load K V om k =
     (case map_index K (om_m om) k of
        Inl e \<Rightarrow> Inl e
      | Inr (Some element) \<Rightarrow>
          (case cells (om_l om) element of
             Some en \<Rightarrow> Inr (evalue en, True)
           | None \<Rightarrow> Inr (zero_value V, False))
      | Inr None \<Rightarrow> Inr (zero_value V, False))"

definition OrderedMap_Delete ::
  "'k ktype \<Rightarrow> ('k, 'v) OrderedMap \<Rightarrow> 'k \<Rightarrow> error + ('k, 'v) OrderedMap" where
  "OrderedMap_Delete K om k =
     (case map_index K (om_m om) k of
        Inl e \<Rightarrow> Inl e
      | Inr (Some element) \<Rightarrow>
          (case map_delete K (om_m om) k of
             Inl e \<Rightarrow> Inl e
           | Inr m' \<Rightarrow> Inr (om\<lparr>om_m := m', om_l := Remove element (om_l om)\<rparr>))
      | Inr None \<Rightarrow> Inr om)"

definition OrderedMap_Len :: "('k, 'v) OrderedMap \<Rightarrow> nat" where
  "OrderedMap_Len om = length (om_m om)"

definition om_pairs :: "('k, 'v) OrderedMap \<Rightarrow> ('k \<times> 'v) list" where
  "om_pairs om = map (\<lambda>en. (ekey en, evalue en)) (values_of (om_l om))"

definition OrderedMap_Range :: "('k, 'v) OrderedMap \<Rightarrow> ('k, 'v, 'a) visitor \<Rightarrow> 'a \<Rightarrow> 'a" where
  "OrderedMap_Range om f acc = visit f (om_pairs om) acc"

subsection \<open>Maps behind the interface, and method calls\<close>

text \<open>
  A value of the interface \<^verbatim>\<open>AbstractMap[K, V]\<close> is a pointer to a struct that embeds the
  helper. \<^verbatim>\<open>UnorderedMap\<close> and \<^verbatim>\<open>OrderedMap\<close> declare \<^verbatim>\<open>Delete\<close>, \<^verbatim>\<open>Len\<close>, \<^verbatim>\<open>Load\<close>,
  \<^verbatim>\<open>Range\<close> and \<^verbatim>\<open>Store\<close> themselves; every other method of their method sets is
  promoted from the embedded helper. \<open>Scaffold\<close> stands for a struct that embeds the
  helper and declares no primitive: its \<^verbatim>\<open>Delete\<close>, \<^verbatim>\<open>Load\<close> and \<^verbatim>\<open>Range\<close> are the
  promoted stubs. (The helper declares no \<^verbatim>\<open>Store\<close> at all; on a scaffold it is taken to
  abort like its sibling stubs.)
\<close>

datatype ('k, 'v) AbstractMap =
  Scaffold "DefaultAbstractMap option"
| Unordered "('k, 'v) UnorderedMap"
| Ordered "('k, 'v) OrderedMap"

text \<open>The stubs of \<^verbatim>\<open>DefaultAbstractMap\<close>.\<close>

definition DefaultAbstractMap_Delete :: "'k \<Rightarrow> error + ('k, 'v) AbstractMap" where
  "DefaultAbstractMap_Delete k = Inl NotImplemented"

definition DefaultAbstractMap_Load :: "'k \<Rightarrow> error + 'v \<times> bool" where
  "DefaultAbstractMap_Load k = Inl NotImplemented"

definition DefaultAbstractMap_Range :: "('k, 'v, 'a) visitor \<Rightarrow> 'a \<Rightarrow> error + 'a" where
  "DefaultAbstractMap_Range f acc = Inl NotImplemented"

text \<open>A call of a primitive on a map: the method the struct declares, else the promoted
  one.\<close>

fun call_Delete :: "'k ktype \<Rightarrow> ('k, 'v) AbstractMap \<Rightarrow> 'k \<Rightarrow> error + ('k, 'v) AbstractMap" where
  "call_Delete K (Scaffold d) k = DefaultAbstractMap_Delete k"
| "call_Delete K (Unordered um) k = map_sum id Unordered (UnorderedMap_Delete K um k)"
| "call_Delete K (Ordered om) k = map_sum id Ordered (OrderedMap_Delete K om k)"

fun call_Load :: "'k ktype \<Rightarrow> 'v vtype \<Rightarrow> ('k, 'v) AbstractMap \<Rightarrow> 'k \<Rightarrow> error + 'v \<times> bool" where
  "call_Load K V (Scaffold d) k = DefaultAbstractMap_Load k"
| "call_Load K V (Unordered um) k = UnorderedMap_Load K V um k"
| "call_Load K V (Ordered om) k = OrderedMap_Load K V om k"

fun call_Range ::
  "nat list \<Rightarrow> ('k, 'v) AbstractMap \<Rightarrow> ('k, 'v, 'a) visitor \<Rightarrow> 'a \<Rightarrow> error + 'a" where
  "call_Range ord (Scaffold d) f acc = DefaultAbstractMap_Range f acc"
| "call_Range ord (Unordered um) f acc = Inr (UnorderedMap_Range ord um f acc)"
| "call_Range ord (Ordered om) f acc = Inr (OrderedMap_Range om f acc)"

fun call_Store :: "'k ktype \<Rightarrow> ('k, 'v) AbstractMap \<Rightarrow> 'k \<Rightarrow> 'v \<Rightarrow> error + ('k, 'v) AbstractMap" where
  "call_Store K (Scaffold d) k v = Inl NotImplemented"
| "call_Store K (Unordered um) k v = map_sum id Unordered (UnorderedMap_Store K um k v)"
| "call_Store K (Ordered om) k v = map_sum id Ordered (OrderedMap_Store K om k v)"

text \<open>
  \<^verbatim>\<open>m.impl\<close> in a method of the helper, called on the map \<open>this\<close> through the embedded
  pointer: the receiver \<^verbatim>\<open>m\<close> is that pointer, and a method call on \<^verbatim>\<open>m.impl\<close> needs both
  the pointer and the interface value to be non-nil. The result is the map the interface
  value points to.
\<close>

fun helper :: "('k, 'v) AbstractMap \<Rightarrow> DefaultAbstractMap option" where
  "helper (Scaffold d) = d"
| "helper (Unordered um) = um_DefaultAbstractMap um"
| "helper (Ordered om) = om_DefaultAbstractMap om"

definition receiver_impl :: "('k, 'v) AbstractMap \<Rightarrow> error + ('k, 'v) AbstractMap" where
  "receiver_impl this =
     (case helper this of
        None \<Rightarrow> Inl NilDereference
      | Some m \<Rightarrow>
          (case impl m of
             NilIface \<Rightarrow> Inl NilDereference
           | Self \<Rightarrow> Inr this
           | ToScaffold \<Rightarrow> Inr (Scaffold None)))"

text \<open>\<^verbatim>\<open>m.impl.Delete\<close>, \<^verbatim>\<open>m.impl.Load\<close>, \<^verbatim>\<open>m.impl.Range\<close>, \<^verbatim>\<open>m.impl.Store\<close>.\<close>

definition impl_Delete :: "'k ktype \<Rightarrow> ('k, 'v) AbstractMap \<Rightarrow> 'k \<Rightarrow> error + ('k, 'v) AbstractMap" where
  "impl_Delete K this k =
     (case receiver_impl this of Inl e \<Rightarrow> Inl e | Inr target \<Rightarrow> call_Delete K target k)"

definition impl_Load :: "'k ktype \<Rightarrow> 'v vtype \<Rightarrow> ('k, 'v) AbstractMap \<Rightarrow> 'k \<Rightarrow> error + 'v \<times> bool" where
  "impl_Load K V this k =
     (case receiver_impl this of Inl e \<Rightarrow> Inl e | Inr target \<Rightarrow> call_Load K V target k)"

definition impl_Range ::
  "nat list \<Rightarrow> ('k, 'v) AbstractMap \<Rightarrow> ('k, 'v, 'a) visitor \<Rightarrow> 'a \<Rightarrow> error + 'a" where
  "impl_Range ord this f acc =
     (case receiver_impl this of Inl e \<Rightarrow> Inl e | Inr target \<Rightarrow> call_Range ord target f acc)"

definition impl_Store :: "'k ktype \<Rightarrow> ('k, 'v) AbstractMap \<Rightarrow> 'k \<Rightarrow> 'v \<Rightarrow> error + ('k, 'v) AbstractMap" where
  "impl_Store K this k v =
     (case receiver_impl this of Inl e \<Rightarrow> Inl e | Inr target \<Rightarrow> call_Store K target k v)"

subsection \<open>DefaultAbstractMap: the derived operations\<close>

text \<open>Second loop of \<^verbatim>\<open>Clear\<close>: \<^verbatim>\<open>for _, key := range keys { m.impl.Delete(key) }\<close>.\<close>

fun delete_each :: "'k ktype \<Rightarrow> 'k list \<Rightarrow> ('k, 'v) AbstractMap \<Rightarrow> error + ('k, 'v) AbstractMap" where
  "delete_each K [] this = Inr this"
| "delete_each K (k # ks) this =
     (case impl_Delete K this k of
        Inl e \<Rightarrow> Inl e
      | Inr this' \<Rightarrow> delete_each K ks this')"

text \<open>First loop of \<^verbatim>\<open>Clear\<close>: \<^verbatim>\<open>for key := range m.impl.Range { keys = append(keys, key) }\<close>;
  the loop body is the visitor, and it never breaks.\<close>

definition append_key :: "('k, 'v, 'k list) visitor" where
  "append_key k v keys = (True, keys @ [k])"

definition DefaultAbstractMap_Clear ::
  "'k ktype \<Rightarrow> nat list \<Rightarrow> ('k, 'v) AbstractMap \<Rightarrow> error + ('k, 'v) AbstractMap" where
  "DefaultAbstractMap_Clear K ord this =
     (case impl_Range ord this append_key [] of
        Inl e \<Rightarrow> Inl e
      | Inr keys \<Rightarrow> delete_each K keys this)"

definition DefaultAbstractMap_CompareAndDelete ::
  "'k ktype \<Rightarrow> 'v vtype \<Rightarrow> ('k, 'v) AbstractMap \<Rightarrow> 'k \<Rightarrow> 'v \<Rightarrow> error + bool \<times> ('k, 'v) AbstractMap" where
  "DefaultAbstractMap_CompareAndDelete K V this k old =
     (case impl_Load K V this k of
        Inl e \<Rightarrow> Inl e
      | Inr (v, ok) \<Rightarrow>
          if \<not> ok then Inr (False, this)
          else (case iface_eq V v old of
                  None \<Rightarrow> Inl Uncomparable
                | Some True \<Rightarrow>
                    (case impl_Delete K this k of
                       Inl e \<Rightarrow> Inl e
                     | Inr this' \<Rightarrow> Inr (True, this'))
                | Some False \<Rightarrow> Inr (False, this)))"

definition DefaultAbstractMap_CompareAndSwap ::
  "'k ktype \<Rightarrow> 'v vtype \<Rightarrow> ('k, 'v) AbstractMap \<Rightarrow> 'k \<Rightarrow> 'v \<Rightarrow> 'v \<Rightarrow> error + bool \<times> ('k, 'v) AbstractMap" where
  "DefaultAbstractMap_CompareAndSwap K V this k old new =
     (case impl_Load K V this k of
        Inl e \<Rightarrow> Inl e
      | Inr (v, ok) \<Rightarrow>
          if \<not> ok then Inr (False, this)
          else (case iface_eq V v old of
                  None \<Rightarrow> Inl Uncomparable
                | Some True \<Rightarrow>
                    (case impl_Store K this k new of
                       Inl e \<Rightarrow> Inl e
                     | Inr this' \<Rightarrow> Inr (True, this'))
                | Some False \<Rightarrow> Inr (False, this)))"

text \<open>\<^verbatim>\<open>for range m.impl.Range { len += 1 }\<close>.\<close>

definition add_one :: "('k, 'v, nat) visitor" where
  "add_one k v len = (True, len + 1)"

definition DefaultAbstractMap_Len :: "nat list \<Rightarrow> ('k, 'v) AbstractMap \<Rightarrow> error + nat" where
  "DefaultAbstractMap_Len ord this = impl_Range ord this add_one 0"

definition DefaultAbstractMap_LoadAndDelete ::
  "'k ktype \<Rightarrow> 'v vtype \<Rightarrow> ('k, 'v) AbstractMap \<Rightarrow> 'k \<Rightarrow> error + ('v \<times> bool) \<times> ('k, 'v) AbstractMap" where
  "DefaultAbstractMap_LoadAndDelete K V this k =
     (case impl_Load K V this k of
        Inl e \<Rightarrow> Inl e
      | Inr (v, loaded) \<Rightarrow>
          if loaded then
            (case impl_Delete K this k of
               Inl e \<Rightarrow> Inl e
             | Inr this' \<Rightarrow> Inr ((v, loaded), this'))
          else Inr ((v, loaded), this))"

definition DefaultAbstractMap_LoadOrStore ::
  "'k ktype \<Rightarrow> 'v vtype \<Rightarrow> ('k, 'v) AbstractMap \<Rightarrow> 'k \<Rightarrow> 'v \<Rightarrow> error + ('v \<times> bool) \<times> ('k, 'v) AbstractMap" where
  "DefaultAbstractMap_LoadOrStore K V this k v =
     (case impl_Load K V this k of
        Inl e \<Rightarrow> Inl e
      | Inr (actual, loaded) \<Rightarrow>
          if \<not> loaded then
            (case impl_Store K this k v of
               Inl e \<Rightarrow> Inl e
             | Inr this' \<Rightarrow> Inr ((v, loaded), this'))
          else Inr ((actual, loaded), this))"

text \<open>\<^verbatim>\<open>for key := range m.impl.Range { if !f(key) { break } }\<close>, and the same with the
  value: the loop body is the visitor handed to \<^verbatim>\<open>Range\<close>; it returns false where the
  body breaks.\<close>

definition DefaultAbstractMap_Keys ::
  "nat list \<Rightarrow> ('k, 'v) AbstractMap \<Rightarrow> ('k \<Rightarrow> 'a \<Rightarrow> bool \<times> 'a) \<Rightarrow> 'a \<Rightarrow> error + 'a" where
  "DefaultAbstractMap_Keys ord this f acc = impl_Range ord this (\<lambda>k v. f k) acc"

definition DefaultAbstractMap_Values ::
  "nat list \<Rightarrow> ('k, 'v) AbstractMap \<Rightarrow> ('v \<Rightarrow> 'a \<Rightarrow> bool \<times> 'a) \<Rightarrow> 'a \<Rightarrow> error + 'a" where
  "DefaultAbstractMap_Values ord this f acc = impl_Range ord this (\<lambda>k v. f v) acc"

definition DefaultAbstractMap_Swap ::
  "'k ktype \<Rightarrow> 'v vtype \<Rightarrow> ('k, 'v) AbstractMap \<Rightarrow> 'k \<Rightarrow> 'v \<Rightarrow> error + ('v \<times> bool) \<times> ('k, 'v) AbstractMap" where
  "DefaultAbstractMap_Swap K V this k v =
     (case impl_Load K V this k of
        Inl e \<Rightarrow> Inl e
      | Inr (previous, loaded) \<Rightarrow>
          (case impl_Store K this k v of
             Inl e \<Rightarrow> Inl e
           | Inr this' \<Rightarrow> Inr ((previous, loaded), this')))"

text \<open>\<^verbatim>\<open>Len\<close> called on a map: the concrete maps declare \<^verbatim>\<open>Len\<close> as \<^verbatim>\<open>len(m)\<close>, which
  shadows the derived one; only a scaffold reaches the derived one.\<close>

fun call_Len :: "nat list \<Rightarrow> ('k, 'v) AbstractMap \<Rightarrow> error + nat" where
  "call_Len ord (Scaffold d) = DefaultAbstractMap_Len ord (Scaffold d :: ('k, 'v) AbstractMap)"
| "call_Len ord (Unordered um) = Inr (UnorderedMap_Len um)"
| "call_Len ord (Ordered om) = Inr (OrderedMap_Len om)"

subsection \<open>Sequences of calls\<close>

text \<open>
  The thirteen methods of the interface \<^verbatim>\<open>AbstractMap\<close>, as calls with their arguments.
  A call that ranges over the map carries the order in which the runtime enumerates an
  unordered map during that call (an ordered map ignores it).
\<close>

datatype ('k, 'v, 'a) call =
  CallClear "nat list"
| CallCompareAndDelete 'k 'v
| CallCompareAndSwap 'k 'v 'v
| CallDelete 'k
| CallLen "nat list"
| CallLoad 'k
| CallLoadAndDelete 'k
| CallLoadOrStore 'k 'v
| CallRange "nat list" "('k, 'v, 'a) visitor" 'a
| CallKeys "nat list" "'k \<Rightarrow> 'a \<Rightarrow> bool \<times> 'a" 'a
| CallValues "nat list" "'v \<Rightarrow> 'a \<Rightarrow> bool \<times> 'a" 'a
| CallStore 'k 'v
| CallSwap 'k 'v

text \<open>What is left of the map after a call returns (its results are dropped here;
  the operations above give them).\<close>

definition keep :: "'s \<Rightarrow> error + 'r \<Rightarrow> error + 's" where
  "keep this r = (case r of Inl e \<Rightarrow> Inl e | Inr x \<Rightarrow> Inr this)"

definition state_of :: "error + 'r \<times> 's \<Rightarrow> error + 's" where
  "state_of r = (case r of Inl e \<Rightarrow> Inl e | Inr (x, this') \<Rightarrow> Inr this')"

fun exec ::
  "'k ktype \<Rightarrow> 'v vtype \<Rightarrow> ('k, 'v, 'a) call \<Rightarrow> ('k, 'v) AbstractMap \<Rightarrow> error + ('k, 'v) AbstractMap" where
  "exec K V (CallClear ord) this = DefaultAbstractMap_Clear K ord this"
| "exec K V (CallCompareAndDelete k old) this = state_of (DefaultAbstractMap_CompareAndDelete K V this k old)"
| "exec K V (CallCompareAndSwap k old new) this = state_of (DefaultAbstractMap_CompareAndSwap K V this k old new)"
| "exec K V (CallDelete k) this = call_Delete K this k"
| "exec K V (CallLen ord) this = keep this (call_Len ord this)"
| "exec K V (CallLoad k) this = keep this (call_Load K V this k)"
| "exec K V (CallLoadAndDelete k) this = state_of (DefaultAbstractMap_LoadAndDelete K V this k)"
| "exec K V (CallLoadOrStore k v) this = state_of (DefaultAbstractMap_LoadOrStore K V this k v)"
| "exec K V (CallRange ord f acc) this = keep this (call_Range ord this f acc)"
| "exec K V (CallKeys ord f acc) this = keep this (DefaultAbstractMap_Keys ord this f acc)"
| "exec K V (CallValues ord f acc) this = keep this (DefaultAbstractMap_Values ord this f acc)"
| "exec K V (CallStore k v) this = call_Store K this k v"
| "exec K V (CallSwap k v) this = state_of (DefaultAbstractMap_Swap K V this k v)"

text \<open>A sequence of calls; a panic ends it.\<close>

fun run ::
  "'k ktype \<Rightarrow> 'v vtype \<Rightarrow> ('k, 'v, 'a) call list \<Rightarrow> ('k, 'v) AbstractMap \<Rightarrow> error + ('k, 'v) AbstractMap" where
  "run K V [] this = Inr this"
| "run K V (c # cs) this =
     (case exec K V c this of
        Inl e \<Rightarrow> Inl e
      | Inr this' \<Rightarrow> run K V cs this')"

text \<open>The order a call carries is an enumeration of the unordered map it ranges over.\<close>

fun order_ok :: "nat list \<Rightarrow> ('k, 'v) AbstractMap \<Rightarrow> bool" where
  "order_ok ord (Unordered um) = enumerates ord (um_m um)"
| "order_ok ord this = True"

fun call_ok :: "('k, 'v, 'a) call \<Rightarrow> ('k, 'v) AbstractMap \<Rightarrow> bool" where
  "call_ok (CallClear ord) this = order_ok ord this"
| "call_ok (CallLen ord) this = order_ok ord this"
| "call_ok (CallRange ord f acc) this = order_ok ord this"
| "call_ok (CallKeys ord f acc) this = order_ok ord this"
| "call_ok (CallValues ord f acc) this = order_ok ord this"
| "call_ok c this = True"

fun run_ok :: "'k ktype \<Rightarrow> 'v vtype \<Rightarrow> ('k, 'v, 'a) call list \<Rightarrow> ('k, 'v) AbstractMap \<Rightarrow> bool" where
  "run_ok K V [] this = True"
| "run_ok K V (c # cs) this =
     (call_ok c this \<and>
      (case exec K V c this of
         Inl e \<Rightarrow> True
       | Inr this' \<Rightarrow> run_ok K V cs this'))"

text \<open>The keys a call names, and the calls whose keys hash and equal themselves.\<close>

fun call_keys :: "('k, 'v, 'a) call \<Rightarrow> 'k list" where
  "call_keys (CallCompareAndDelete k old) = [k]"
| "call_keys (CallCompareAndSwap k old new) = [k]"
| "call_keys (CallDelete k) = [k]"
| "call_keys (CallLoad k) = [k]"
| "call_keys (CallLoadAndDelete k) = [k]"
| "call_keys (CallLoadOrStore k v) = [k]"
| "call_keys (CallStore k v) = [k]"
| "call_keys (CallSwap k v) = [k]"
| "call_keys c = []"

definition good_key :: "'k ktype \<Rightarrow> 'k \<Rightarrow> bool" where
  "good_key K k = (hashable K k \<and> self_equal K k)"

definition good_calls :: "'k ktype \<Rightarrow> ('k, 'v, 'a) call list \<Rightarrow> bool" where
  "good_calls K cs = list_all (\<lambda>c. list_all (good_key K) (call_keys c)) cs"

subsection \<open>Invariants\<close>

text \<open>The entries of a Go map: no two keys are \<^verbatim>\<open>==\<close>, and every key was hashed when it
  was assigned.\<close>

definition entries_ok :: "'k ktype \<Rightarrow> ('k \<times> 'x) list \<Rightarrow> bool" where
  "entries_ok K ps =
     (distinct (filter (self_equal K) (map fst ps)) \<and> list_all (hashable K) (map fst ps))"

text \<open>
  The index and the list of an OrderedMap correspond one to one: every entry of the
  index points to an element that holds an entry with the same key, no two entries of
  the index point to the same element, and the elements the index points to are the
  linked elements, which are pairwise different and allocated.
\<close>

definition OrderedMap_inv :: "'k ktype \<Rightarrow> ('k, 'v) OrderedMap \<Rightarrow> bool" where
  "OrderedMap_inv K om =
     (entries_ok K (om_m om) \<and>
      distinct (map snd (om_m om)) \<and>
      distinct (elems (om_l om)) \<and>
      set (map snd (om_m om)) = set (elems (om_l om)) \<and>
      (\<forall>e \<in> set (elems (om_l om)). e < free (om_l om)) \<and>
      (\<forall>p \<in> set (om_m om). \<exists>en. cells (om_l om) (snd p) = Some en \<and> ekey en = fst p))"


text \<open>A map of one of the two concrete types.\<close>

fun concrete :: "('k, 'v) AbstractMap \<Rightarrow> bool" where
  "concrete (Scaffold d) = False"
| "concrete this = True"

text \<open>The field \<^verbatim>\<open>impl\<close> of the embedded helper points back to the map.\<close>

definition wired :: "('k, 'v) AbstractMap \<Rightarrow> bool" where
  "wired this = (receiver_impl this = Inr this)"

text \<open>A concrete map in a consistent state.\<close>

fun consistent :: "'k ktype \<Rightarrow> ('k, 'v) AbstractMap \<Rightarrow> bool" where
  "consistent K (Scaffold d) = False"
| "consistent K (Unordered um) = entries_ok K (um_m um)"
| "consistent K (Ordered om) = OrderedMap_inv K om"

definition wf_map :: "'k ktype \<Rightarrow> ('k, 'v) AbstractMap \<Rightarrow> bool" where
  "wf_map K this = (wired this \<and> consistent K this)"

fun ordered :: "('k, 'v) AbstractMap \<Rightarrow> bool" where
  "ordered (Ordered om) = True"
| "ordered this = False"

subsection \<open>The specification's view of a map\<close>

text \<open>The (key, value) pairs a map holds, and the pairs a traversal meets, in its
  order.\<close>

fun entries :: "('k, 'v) AbstractMap \<Rightarrow> ('k \<times> 'v) list" where
  "entries (Scaffold d) = []"
| "entries (Unordered um) = um_m um"
| "entries (Ordered om) = om_pairs om"

fun pairs :: "nat list \<Rightarrow> ('k, 'v) AbstractMap \<Rightarrow> ('k \<times> 'v) list" where
  "pairs ord (Scaffold d) = []"
| "pairs ord (Unordered um) = slots ord (um_m um)"
| "pairs ord (Ordered om) = om_pairs om"

text \<open>The value a key is bound to: the value of the pair whose key is \<^verbatim>\<open>==\<close> to it.\<close>

definition lookup :: "'k ktype \<Rightarrow> ('k \<times> 'x) list \<Rightarrow> 'k \<rightharpoonup> 'x" where
  "lookup K ps k = (if self_equal K k then map_of ps k else None)"

definition contents :: "'k ktype \<Rightarrow> ('k, 'v) AbstractMap \<Rightarrow> 'k \<rightharpoonup> 'v" where
  "contents K this = lookup K (entries this)"

text \<open>
  The specification of the ordered map on the sequence of its pairs: \<^emph>\<open>Store\<close> of a
  present key updates the value in place, of a new key appends at the tail;
  \<^emph>\<open>Delete\<close> removes the position and closes the gap.
\<close>

definition seq_store :: "'k \<Rightarrow> 'v \<Rightarrow> ('k \<times> 'v) list \<Rightarrow> ('k \<times> 'v) list" where
  "seq_store k v ps =
     (if k \<in> fst ` set ps then map (\<lambda>p. if fst p = k then (k, v) else p) ps else ps @ [(k, v)])"

definition seq_delete :: "'k \<Rightarrow> ('k \<times> 'v) list \<Rightarrow> ('k \<times> 'v) list" where
  "seq_delete k ps = filter (\<lambda>p. fst p \<noteq> k) ps"

text \<open>
  The keys in the order they were first inserted, excluding deleted keys, after a
  sequence of \<^emph>\<open>Store\<close>, \<^emph>\<open>Delete\<close> and \<^emph>\<open>Clear\<close> calls (starting from the keys \<open>ks\<close>).
\<close>

fun insertion_order :: "('k, 'v, 'a) call list \<Rightarrow> 'k list \<Rightarrow> 'k list" where
  "insertion_order [] ks = ks"
| "insertion_order (CallStore k v # cs) ks =
     insertion_order cs (if k \<in> set ks then ks else ks @ [k])"
| "insertion_order (CallDelete k # cs) ks = insertion_order cs (removeAll k ks)"
| "insertion_order (CallClear ord # cs) ks = insertion_order cs []"
| "insertion_order (c # cs) ks = insertion_order cs ks"

fun store_delete_clear :: "('k, 'v, 'a) call \<Rightarrow> bool" where
  "store_delete_clear (CallStore k v) = True"
| "store_delete_clear (CallDelete k) = True"
| "store_delete_clear (CallClear ord) = True"
| "store_delete_clear c = False"

text \<open>
  The specification of every operation on the collection of pairs (section 4 of the
  specification); \<^emph>\<open>equal by value equality\<close> is the comparison of the value type.
\<close>

fun spec_exec :: "'v vtype \<Rightarrow> ('k, 'v, 'a) call \<Rightarrow> ('k \<rightharpoonup> 'v) \<Rightarrow> ('k \<rightharpoonup> 'v)" where
  "spec_exec V (CallClear ord) m = Map.empty"
| "spec_exec V (CallCompareAndDelete k old) m =
     (case m k of
        Some v \<Rightarrow> if iface_eq V v old = Some True then m(k := None) else m
      | None \<Rightarrow> m)"
| "spec_exec V (CallCompareAndSwap k old new) m =
     (case m k of
        Some v \<Rightarrow> if iface_eq V v old = Some True then m(k \<mapsto> new) else m
      | None \<Rightarrow> m)"
| "spec_exec V (CallDelete k) m = m(k := None)"
| "spec_exec V (CallLoadAndDelete k) m = m(k := None)"
| "spec_exec V (CallLoadOrStore k v) m = (case m k of Some w \<Rightarrow> m | None \<Rightarrow> m(k \<mapsto> v))"
| "spec_exec V (CallStore k v) m = m(k \<mapsto> v)"
| "spec_exec V (CallSwap k v) m = m(k \<mapsto> v)"
| "spec_exec V c m = m"

fun spec_run :: "'v vtype \<Rightarrow> ('k, 'v, 'a) call list \<Rightarrow> ('k \<rightharpoonup> 'v) \<Rightarrow> ('k \<rightharpoonup> 'v)" where
  "spec_run V [] m = m"
| "spec_run V (c # cs) m = spec_run V cs (spec_exec V c m)"

text \<open>
  A call that, made on the map \<open>this\<close>, deletes \<open>k\<close> or stores to \<open>k\<close>: Clear, Delete,
  LoadAndDelete, Store and Swap of \<open>k\<close>, a CompareAndDelete or CompareAndSwap of \<open>k\<close> that
  succeeds, a LoadOrStore of \<open>k\<close> that stores. A sequence of calls leaves \<open>k\<close> alone when
  none of its calls does so in the state it is made in.
\<close>

fun disturbs ::
  "'k ktype \<Rightarrow> 'v vtype \<Rightarrow> 'k \<Rightarrow> ('k, 'v, 'a) call \<Rightarrow> ('k, 'v) AbstractMap \<Rightarrow> bool" where
  "disturbs K V k (CallClear ord) this = True"
| "disturbs K V k (CallCompareAndDelete k' old) this =
     (k' = k \<and>
      (case DefaultAbstractMap_CompareAndDelete K V this k' old of
         Inr (True, this') \<Rightarrow> True
       | _ \<Rightarrow> False))"
| "disturbs K V k (CallCompareAndSwap k' old new) this =
     (k' = k \<and>
      (case DefaultAbstractMap_CompareAndSwap K V this k' old new of
         Inr (True, this') \<Rightarrow> True
       | _ \<Rightarrow> False))"
| "disturbs K V k (CallDelete k') this = (k' = k)"
| "disturbs K V k (CallLoadAndDelete k') this = (k' = k)"
| "disturbs K V k (CallLoadOrStore k' v) this =
     (k' = k \<and>
      (case DefaultAbstractMap_LoadOrStore K V this k' v of
         Inr ((actual, False), this') \<Rightarrow> True
       | _ \<Rightarrow> False))"
| "disturbs K V k (CallStore k' v) this = (k' = k)"
| "disturbs K V k (CallSwap k' v) this = (k' = k)"
| "disturbs K V k c this = False"

fun undisturbed ::
  "'k ktype \<Rightarrow> 'v vtype \<Rightarrow> 'k \<Rightarrow> ('k, 'v, 'a) call list \<Rightarrow> ('k, 'v) AbstractMap \<Rightarrow> bool" where
  "undisturbed K V k [] this = True"
| "undisturbed K V k (c # cs) this =
     (\<not> disturbs K V k c this \<and>
      (case exec K V c this of
         Inl e \<Rightarrow> True
       | Inr this' \<Rightarrow> undisturbed K V k cs this'))"

section \<open>The built-in map and its enumerations\<close>

subsection \<open>Go's map\<close>

lemma map_index_lookup:
  "map_index K m k = (if hashable K k then Inr (lookup K m k) else Inl Unhashable)"
  by (simp add: map_index_def lookup_def)

lemma map_of_replace_same:
  "map_of (map (\<lambda>p. if fst p = k then (k, v) else p) ps) k =
     (if k \<in> set (map fst ps) then Some v else None)"
  by (induction ps) simp_all

lemma map_of_replace_other:
  "x \<noteq> k \<Longrightarrow> map_of (map (\<lambda>p. if fst p = k then (k, v) else p) ps) x = map_of ps x"
  by (induction ps) simp_all

lemma keys_replace: "map fst (map (\<lambda>p. if fst p = k then (k, v) else p) ps) = map fst ps"
  by (induction ps) simp_all

lemma map_of_seq_store: "map_of (seq_store k v ps) = (map_of ps)(k \<mapsto> v)"
proof (cases "k \<in> set (map fst ps)")
  case True
  have "map_of (map (\<lambda>p. if fst p = k then (k, v) else p) ps) = (map_of ps)(k \<mapsto> v)"
    using True by (simp add: fun_eq_iff map_of_replace_same map_of_replace_other del: set_map)
  then show ?thesis
    unfolding seq_store_def using True by simp
next
  case False
  then have "map_of ps k = None" by (simp add: map_of_eq_None_iff)
  then have "map_of (ps @ [(k, v)]) = (map_of ps)(k \<mapsto> v)"
    by (auto simp: map_add_def fun_eq_iff split: option.splits)
  then show ?thesis
    unfolding seq_store_def using False by simp
qed

lemma map_of_seq_delete: "map_of (seq_delete k ps) = (map_of ps)(k := None)"
  unfolding seq_delete_def by (induction ps) (auto simp: fun_eq_iff)

lemma keys_seq_store:
  "map fst (seq_store k v ps) = (if k \<in> set (map fst ps) then map fst ps else map fst ps @ [k])"
  unfolding seq_store_def by (simp add: keys_replace)

lemma keys_seq_delete: "map fst (seq_delete k ps) = removeAll k (map fst ps)"
  unfolding seq_delete_def by (induction ps) auto

lemma map_assign_good:
  "good_key K k \<Longrightarrow> map_assign K ps k v = Inr (seq_store k v ps)"
  by (simp add: good_key_def map_assign_def seq_store_def)

lemma map_delete_good:
  "good_key K k \<Longrightarrow> map_delete K ps k = Inr (seq_delete k ps)"
  by (simp add: good_key_def map_delete_def seq_delete_def)

lemma map_assign_unhashable: "\<not> hashable K k \<Longrightarrow> map_assign K ps k v = Inl Unhashable"
  by (simp add: map_assign_def)

lemma map_delete_unhashable: "\<not> hashable K k \<Longrightarrow> map_delete K ps k = Inl Unhashable"
  by (simp add: map_delete_def)

lemma map_assign_cases:
  assumes "hashable K k"
  shows "map_assign K ps k v =
     Inr (if self_equal K k then seq_store k v ps else ps @ [(k, v)])"
  using assms by (simp add: map_assign_def seq_store_def)

lemma map_delete_cases:
  assumes "hashable K k"
  shows "map_delete K ps k = Inr (if self_equal K k then seq_delete k ps else ps)"
  using assms by (simp add: map_delete_def seq_delete_def)

lemma lookup_assign:
  assumes "map_assign K ps k v = Inr ps'"
  shows "lookup K ps' k' = (if k' = k \<and> self_equal K k then Some v else lookup K ps k')"
proof -
  from assms have h: "hashable K k" by (auto simp: map_assign_def split: if_splits)
  show ?thesis
  proof (cases "self_equal K k")
    case True
    with assms h have "ps' = seq_store k v ps" by (simp add: map_assign_cases)
    then show ?thesis using True by (simp add: lookup_def map_of_seq_store)
  next
    case False
    with assms h have "ps' = ps @ [(k, v)]" by (simp add: map_assign_cases)
    then show ?thesis using False
      by (auto simp: lookup_def map_add_def split: option.splits)
  qed
qed

lemma lookup_delete:
  assumes "map_delete K ps k = Inr ps'"
  shows "lookup K ps' k' = (if k' = k then None else lookup K ps k')"
proof -
  from assms have h: "hashable K k" by (auto simp: map_delete_def split: if_splits)
  show ?thesis
  proof (cases "self_equal K k")
    case True
    with assms h have "ps' = seq_delete k ps" by (simp add: map_delete_cases)
    then show ?thesis by (simp add: lookup_def map_of_seq_delete)
  next
    case False
    with assms h have "ps' = ps" by (simp add: map_delete_cases)
    then show ?thesis using False by (auto simp: lookup_def)
  qed
qed

lemma entries_ok_Nil: "entries_ok K []"
  by (simp add: entries_ok_def)

lemma entries_ok_assign:
  assumes "entries_ok K ps" "map_assign K ps k v = Inr ps'"
  shows "entries_ok K ps'"
proof -
  from assms(2) have h: "hashable K k" by (auto simp: map_assign_def split: if_splits)
  show ?thesis
  proof (cases "self_equal K k \<and> k \<in> fst ` set ps")
    case True
    with assms(2) h have "map fst ps' = map fst ps"
      by (auto simp: map_assign_def keys_replace)
    with assms(1) show ?thesis by (simp add: entries_ok_def)
  next
    case False
    with assms(2) h have "ps' = ps @ [(k, v)]" by (auto simp: map_assign_def)
    with assms(1) False h show ?thesis by (auto simp: entries_ok_def)
  qed
qed

lemma entries_ok_filter:
  assumes "entries_ok K ps"
  shows "entries_ok K (filter P ps)"
proof -
  have "distinct (map fst (filter (\<lambda>p. self_equal K (fst p)) ps))"
    using assms by (simp add: entries_ok_def filter_map comp_def)
  then have "distinct (map fst (filter P (filter (\<lambda>p. self_equal K (fst p)) ps)))"
    by (rule distinct_map_filter)
  moreover have "filter P (filter (\<lambda>p. self_equal K (fst p)) ps) =
      filter (\<lambda>p. self_equal K (fst p)) (filter P ps)"
    by (auto intro: filter_cong)
  ultimately have "distinct (filter (self_equal K) (map fst (filter P ps)))"
    by (simp add: filter_map comp_def)
  moreover have "list_all (hashable K) (map fst (filter P ps))"
    using assms by (auto simp: entries_ok_def list_all_iff)
  ultimately show ?thesis by (simp add: entries_ok_def)
qed

lemma entries_ok_delete:
  assumes "entries_ok K ps" "map_delete K ps k = Inr ps'"
  shows "entries_ok K ps'"
  using assms by (auto simp: map_delete_def entries_ok_filter split: if_splits)

lemma entries_ok_unique:
  assumes "entries_ok K ps" "(k, a) \<in> set ps" "(k, b) \<in> set ps" "self_equal K k"
  shows "a = b"
  using assms unfolding entries_ok_def
proof (induction ps)
  case Nil
  then show ?case by simp
next
  case (Cons p ps)
  then show ?case by (auto simp: image_iff split: if_splits)
qed

lemma lookup_Some_mem: "lookup K ps k = Some x \<Longrightarrow> (k, x) \<in> set ps \<and> self_equal K k"
  by (auto simp: lookup_def dest: map_of_SomeD split: if_splits)

lemma lookup_SomeI:
  assumes "entries_ok K ps" "(k, x) \<in> set ps" "self_equal K k"
  shows "lookup K ps k = Some x"
proof -
  from assms(2) obtain y where y: "map_of ps k = Some y"
    by (meson weak_map_of_SomeI)
  then have "(k, y) \<in> set ps" by (rule map_of_SomeD)
  with entries_ok_unique [OF assms(1) _ assms(2,3)] have "y = x" by simp
  with y assms(3) show ?thesis by (simp add: lookup_def)
qed

lemma lookup_None_iff:
  "self_equal K k \<Longrightarrow> (lookup K ps k = None) = (k \<notin> fst ` set ps)"
  by (simp add: lookup_def map_of_eq_None_iff)

lemma lookup_not_self: "\<not> self_equal K k \<Longrightarrow> lookup K ps k = None"
  by (simp add: lookup_def)

subsection \<open>Enumerations of a Go map\<close>

lemma slots_map:
  "set ord \<subseteq> {..<length m} \<Longrightarrow> slots ord m = map ((!) m) ord"
  unfolding slots_def by (induction ord) auto

lemma enumerates_subset: "enumerates ord m \<Longrightarrow> set ord \<subseteq> {..<length m}"
  by (simp add: enumerates_def)

lemma slots_set:
  assumes "enumerates ord m"
  shows "set (slots ord m) = set m"
proof -
  have "set (slots ord m) = (!) m ` {..<length m}"
    using assms by (simp add: slots_map [OF enumerates_subset] enumerates_def)
  also have "\<dots> = set m"
    using nth_image [of "length m" m] by (simp add: lessThan_atLeast0)
  finally show ?thesis .
qed

lemma slots_length:
  assumes "enumerates ord m"
  shows "length (slots ord m) = length m"
proof -
  have "length (slots ord m) = length ord"
    using assms by (simp add: slots_map [OF enumerates_subset])
  also have "\<dots> = length m"
    using assms distinct_card [of ord] by (simp add: enumerates_def)
  finally show ?thesis .
qed

lemma slots_Nil: "slots ord [] = []"
  unfolding slots_def by (induction ord) auto

section \<open>OrderedMap: the index and the list\<close>

subsection \<open>The invariant of OrderedMap is kept by its primitives\<close>

lemma inv_New: "OrderedMap_inv K NewOrderedMap"
  by (simp add: OrderedMap_inv_def NewOrderedMap_def list_New_def entries_ok_def Let_def)

lemma inv_index: "OrderedMap_inv K om \<Longrightarrow> entries_ok K (om_m om)"
  by (simp add: OrderedMap_inv_def)

lemma inv_index_distinct: "OrderedMap_inv K om \<Longrightarrow> distinct (map snd (om_m om))"
  by (simp add: OrderedMap_inv_def)

lemma inv_distinct: "OrderedMap_inv K om \<Longrightarrow> distinct (elems (om_l om))"
  by (simp add: OrderedMap_inv_def)

lemma inv_same: "OrderedMap_inv K om \<Longrightarrow> set (map snd (om_m om)) = set (elems (om_l om))"
  by (simp add: OrderedMap_inv_def)

lemma inv_lt: "OrderedMap_inv K om \<Longrightarrow> e \<in> set (elems (om_l om)) \<Longrightarrow> e < free (om_l om)"
  by (simp add: OrderedMap_inv_def)

lemma inv_cell:
  "OrderedMap_inv K om \<Longrightarrow> (k, e) \<in> set (om_m om) \<Longrightarrow>
     \<exists>en. cells (om_l om) e = Some en \<and> ekey en = k"
  unfolding OrderedMap_inv_def by force

lemma inv_index_mem:
  assumes "OrderedMap_inv K om" "(k, e) \<in> set (om_m om)"
  shows "e \<in> set (elems (om_l om))"
proof -
  from assms(2) have "e \<in> set (map snd (om_m om))" by force
  with inv_same [OF assms(1)] show ?thesis by simp
qed

lemma inv_node:
  assumes "OrderedMap_inv K om" "e \<in> set (elems (om_l om))"
  shows "\<exists>en. cells (om_l om) e = Some en \<and> (ekey en, e) \<in> set (om_m om)"
proof -
  from assms(2) inv_same [OF assms(1)] have "e \<in> set (map snd (om_m om))" by simp
  then obtain k where k: "(k, e) \<in> set (om_m om)" by auto
  with inv_cell [OF assms(1) k] show ?thesis by auto
qed

lemma inv_entry_unique:
  assumes "OrderedMap_inv K om" "(k, e) \<in> set (om_m om)" "(k', e) \<in> set (om_m om)"
  shows "k' = k"
  using inv_cell [OF assms(1,2)] inv_cell [OF assms(1,3)] by auto

lemma inv_found:
  assumes "OrderedMap_inv K om" "lookup K (om_m om) k = Some e"
  shows "(k, e) \<in> set (om_m om)" "self_equal K k" "e \<in> set (elems (om_l om))"
    "\<exists>en. cells (om_l om) e = Some en \<and> ekey en = k"
proof -
  from lookup_Some_mem [OF assms(2)] show m: "(k, e) \<in> set (om_m om)" and "self_equal K k"
    by simp_all
  from inv_index_mem [OF assms(1) m] show "e \<in> set (elems (om_l om))" .
  from inv_cell [OF assms(1) m] show "\<exists>en. cells (om_l om) e = Some en \<and> ekey en = k" .
qed

lemma inv_key_node:
  assumes inv: "OrderedMap_inv K om" and f: "lookup K (om_m om) k = Some e"
    and n: "e' \<in> set (elems (om_l om))" "cells (om_l om) e' = Some en'"
  shows "(ekey en' = k) = (e' = e)"
proof
  assume "ekey en' = k"
  with inv_node [OF inv n(1)] n(2) have "(k, e') \<in> set (om_m om)" by auto
  from entries_ok_unique [OF inv_index [OF inv] this inv_found(1) [OF inv f] inv_found(2) [OF inv f]]
  show "e' = e" .
next
  assume "e' = e"
  with inv_found(4) [OF inv f] n(2) show "ekey en' = k" by auto
qed

lemma invI:
  assumes "entries_ok K (om_m om)" "distinct (map snd (om_m om))" "distinct (elems (om_l om))"
    and "set (map snd (om_m om)) = set (elems (om_l om))"
    and "\<And>e. e \<in> set (elems (om_l om)) \<Longrightarrow> e < free (om_l om)"
    and "\<And>k e. (k, e) \<in> set (om_m om) \<Longrightarrow> \<exists>en. cells (om_l om) e = Some en \<and> ekey en = k"
  shows "OrderedMap_inv K om"
  unfolding OrderedMap_inv_def using assms by auto

text \<open>The three ways of Store and the two of Delete.\<close>

lemma Store_unhashable: "\<not> hashable K k \<Longrightarrow> OrderedMap_Store K om k v = Inl Unhashable"
  by (simp add: OrderedMap_Store_def map_index_def)

lemma Store_present:
  "hashable K k \<Longrightarrow> lookup K (om_m om) k = Some e \<Longrightarrow> cells (om_l om) e = Some en \<Longrightarrow>
   OrderedMap_Store K om k v =
     Inr (om\<lparr>om_l := (om_l om)\<lparr>cells := (cells (om_l om))(e \<mapsto> en\<lparr>evalue := v\<rparr>)\<rparr>\<rparr>)"
  by (simp add: OrderedMap_Store_def map_index_lookup assign_value_def)

lemma Store_absent:
  assumes "hashable K k" "lookup K (om_m om) k = None"
  shows "OrderedMap_Store K om k v =
     Inr (om\<lparr>om_m := om_m om @ [(k, free (om_l om))],
            om_l := (om_l om)\<lparr>elems := elems (om_l om) @ [free (om_l om)],
                          cells := (cells (om_l om))(free (om_l om) \<mapsto> \<lparr>ekey = k, evalue = v\<rparr>),
                          free := Suc (free (om_l om))\<rparr>\<rparr>)"
proof -
  have "\<not> (self_equal K k \<and> k \<in> fst ` set (om_m om))"
    using assms(2) lookup_None_iff [of K k "om_m om"] by blast
  then have "map_assign K (om_m om) k (free (om_l om)) = Inr (om_m om @ [(k, free (om_l om))])"
    using assms(1) by (simp add: map_assign_def)
  then show ?thesis
    using assms by (simp add: OrderedMap_Store_def map_index_lookup PushBack_def)
qed

lemma Delete_unhashable: "\<not> hashable K k \<Longrightarrow> OrderedMap_Delete K om k = Inl Unhashable"
  by (simp add: OrderedMap_Delete_def map_index_def)

lemma Delete_present:
  "hashable K k \<Longrightarrow> lookup K (om_m om) k = Some e \<Longrightarrow> e \<in> set (elems (om_l om)) \<Longrightarrow>
   OrderedMap_Delete K om k =
     Inr (om\<lparr>om_m := filter (\<lambda>p. fst p \<noteq> k) (om_m om),
            om_l := (om_l om)\<lparr>elems := remove1 e (elems (om_l om))\<rparr>\<rparr>)"
  by (auto simp: OrderedMap_Delete_def map_index_lookup map_delete_def Remove_def
      dest: lookup_Some_mem)

lemma Delete_absent:
  "hashable K k \<Longrightarrow> lookup K (om_m om) k = None \<Longrightarrow> OrderedMap_Delete K om k = Inr om"
  by (simp add: OrderedMap_Delete_def map_index_lookup)

lemma inv_Store_present:
  assumes inv: "OrderedMap_inv K om" and f: "lookup K (om_m om) k = Some e"
    and c: "cells (om_l om) e = Some en"
  shows "OrderedMap_inv K (om\<lparr>om_l := (om_l om)\<lparr>cells := (cells (om_l om))(e \<mapsto> en\<lparr>evalue := v\<rparr>)\<rparr>\<rparr>)"
  apply (rule invI; simp)
  subgoal by (rule inv_index [OF inv])
  subgoal by (rule inv_index_distinct [OF inv])
  subgoal by (rule inv_distinct [OF inv])
  subgoal using inv_same [OF inv] by simp
  subgoal for e' by (rule inv_lt [OF inv])
  subgoal for k' e' using inv_cell [OF inv, of k' e'] c by auto
  done

lemma inv_Store_absent:
  assumes inv: "OrderedMap_inv K om" and h: "hashable K k" and f: "lookup K (om_m om) k = None"
  shows "OrderedMap_inv K (om\<lparr>om_m := om_m om @ [(k, free (om_l om))],
            om_l := (om_l om)\<lparr>elems := elems (om_l om) @ [free (om_l om)],
                          cells := (cells (om_l om))(free (om_l om) \<mapsto> \<lparr>ekey = k, evalue = v\<rparr>),
                          free := Suc (free (om_l om))\<rparr>\<rparr>)"
proof -
  let ?f = "free (om_l om)"
  have fresh: "?f \<notin> set (elems (om_l om))"
    using inv_lt [OF inv, of ?f] by auto
  have fresh': "?f \<notin> snd ` set (om_m om)"
    using fresh inv_same [OF inv] by simp
  have nk: "self_equal K k \<Longrightarrow> k \<notin> fst ` set (om_m om)"
    using f by (simp add: lookup_None_iff)
  have ok: "entries_ok K (om_m om @ [(k, ?f)])"
    using inv_index [OF inv] h nk by (auto simp: entries_ok_def)
  show ?thesis
    apply (rule invI; simp)
    subgoal by (rule ok [simplified])
    subgoal using inv_index_distinct [OF inv] fresh' by simp
    subgoal using inv_distinct [OF inv] fresh by simp
    subgoal using inv_same [OF inv] by simp
    subgoal for e using inv_lt [OF inv, of e] by auto
    subgoal for k' e using inv_cell [OF inv, of k' e] fresh' by force
    done
qed

lemma inv_Delete_present:
  assumes inv: "OrderedMap_inv K om" and f: "lookup K (om_m om) k = Some e"
  shows "OrderedMap_inv K (om\<lparr>om_m := filter (\<lambda>p. fst p \<noteq> k) (om_m om),
            om_l := (om_l om)\<lparr>elems := remove1 e (elems (om_l om))\<rparr>\<rparr>)"
proof -
  note m = inv_found(1) [OF inv f] and se = inv_found(2) [OF inv f]
  have one: "(k', e') \<in> set (om_m om) \<Longrightarrow> (k' = k) = (e' = e)" for k' e'
  proof
    assume a: "(k', e') \<in> set (om_m om)" "k' = k"
    from entries_ok_unique [OF inv_index [OF inv] _ m se] a show "e' = e" by simp
  next
    assume a: "(k', e') \<in> set (om_m om)" "e' = e"
    from inv_entry_unique [OF inv m] a show "k' = k" by simp
  qed
  have same: "snd ` {p \<in> set (om_m om). fst p \<noteq> k} = set (elems (om_l om)) - {e}"
  proof (intro set_eqI iffI)
    fix x assume "x \<in> snd ` {p \<in> set (om_m om). fst p \<noteq> k}"
    then obtain k' where k': "(k', x) \<in> set (om_m om)" "k' \<noteq> k" by auto
    with one [OF k'(1)] inv_index_mem [OF inv k'(1)] show "x \<in> set (elems (om_l om)) - {e}"
      by simp
  next
    fix x assume x: "x \<in> set (elems (om_l om)) - {e}"
    then obtain k' where "(k', x) \<in> set (om_m om)" using inv_node [OF inv, of x] by auto
    with one [OF this] x show "x \<in> snd ` {p \<in> set (om_m om). fst p \<noteq> k}" by force
  qed
  show ?thesis
    apply (rule invI; simp)
    subgoal by (rule entries_ok_filter [OF inv_index [OF inv]])
    subgoal by (rule distinct_map_filter [OF inv_index_distinct [OF inv]])
    subgoal using inv_distinct [OF inv] by simp
    subgoal using same inv_distinct [OF inv] by simp
    subgoal for e' using inv_lt [OF inv, of e'] inv_distinct [OF inv] by auto
    subgoal for k' e' using inv_cell [OF inv, of k' e'] by simp
    done
qed

subsection \<open>The pairs of an OrderedMap\<close>

lemma map_filter_all:
  "\<forall>x \<in> set xs. \<exists>y. f x = Some y \<Longrightarrow> List.map_filter f xs = map (\<lambda>x. the (f x)) xs"
  by (induction xs) auto

lemma om_pairs_map:
  assumes inv: "OrderedMap_inv K om"
  shows "om_pairs om =
    map (\<lambda>e. (ekey (the (cells (om_l om) e)), evalue (the (cells (om_l om) e)))) (elems (om_l om))"
proof -
  have "values_of (om_l om) = map (\<lambda>e. the (cells (om_l om) e)) (elems (om_l om))"
    unfolding values_of_def using inv_node [OF inv] by (intro map_filter_all) blast
  then show ?thesis by (simp add: om_pairs_def comp_def)
qed

lemma om_keys_map:
  assumes inv: "OrderedMap_inv K om"
  shows "map fst (om_pairs om) = map (\<lambda>e. ekey (the (cells (om_l om) e))) (elems (om_l om))"
  by (simp add: om_pairs_map [OF inv] comp_def)

lemma om_keys_set:
  assumes inv: "OrderedMap_inv K om"
  shows "fst ` set (om_pairs om) = fst ` set (om_m om)"
proof -
  let ?key = "\<lambda>e. ekey (the (cells (om_l om) e))"
  have "?key ` set (elems (om_l om)) = fst ` set (om_m om)"
  proof (intro set_eqI iffI)
    fix k assume "k \<in> ?key ` set (elems (om_l om))"
    then obtain e where e: "e \<in> set (elems (om_l om))" "k = ?key e" by blast
    from inv_node [OF inv e(1)] e(2) show "k \<in> fst ` set (om_m om)" by force
  next
    fix k assume "k \<in> fst ` set (om_m om)"
    then obtain e where e: "(k, e) \<in> set (om_m om)" by auto
    from inv_cell [OF inv e] have "k = ?key e" by auto
    with inv_index_mem [OF inv e] show "k \<in> ?key ` set (elems (om_l om))" by blast
  qed
  moreover have "fst ` set (om_pairs om) = set (map fst (om_pairs om))" by simp
  ultimately show ?thesis unfolding om_keys_map [OF inv] by simp
qed

lemma om_pairs_ok:
  assumes inv: "OrderedMap_inv K om"
  shows "entries_ok K (om_pairs om)"
proof -
  let ?key = "\<lambda>e. ekey (the (cells (om_l om) e))"
  let ?es = "filter (\<lambda>e. self_equal K (?key e)) (elems (om_l om))"
  have "inj_on ?key (set ?es)"
  proof (rule inj_onI)
    fix x y
    assume x: "x \<in> set ?es" and y: "y \<in> set ?es" and eq: "?key x = ?key y"
    from x inv_node [OF inv, of x] have 1: "(?key x, x) \<in> set (om_m om)" "self_equal K (?key x)"
      by auto
    from y inv_node [OF inv, of y] eq have 2: "(?key x, y) \<in> set (om_m om)" by auto
    from entries_ok_unique [OF inv_index [OF inv] 1(1) 2 1(2)] show "x = y" .
  qed
  moreover have "distinct ?es" using inv_distinct [OF inv] by simp
  ultimately have "distinct (map ?key ?es)" by (simp add: distinct_map)
  then have d: "distinct (filter (self_equal K) (map fst (om_pairs om)))"
    by (simp add: om_keys_map [OF inv] filter_map comp_def)
  have "\<forall>k \<in> fst ` set (om_pairs om). hashable K k"
    unfolding om_keys_set [OF inv] using inv_index [OF inv]
    by (auto simp: entries_ok_def list_all_iff)
  then have "list_all (hashable K) (map fst (om_pairs om))"
    by (simp add: list_all_iff)
  with d show ?thesis by (simp add: entries_ok_def)
qed

lemma om_pairs_length:
  assumes inv: "OrderedMap_inv K om"
  shows "length (om_pairs om) = length (om_m om)"
proof -
  have "length (om_pairs om) = length (elems (om_l om))"
    by (simp add: om_pairs_map [OF inv])
  also have "\<dots> = card (set (elems (om_l om)))"
    using inv_distinct [OF inv] by (simp add: distinct_card)
  also have "\<dots> = card (set (map snd (om_m om)))"
    using inv_same [OF inv] by simp
  also have "\<dots> = length (map snd (om_m om))"
    using inv_index_distinct [OF inv] by (rule distinct_card)
  finally show ?thesis by simp
qed

lemma lookup_om_pairs:
  assumes inv: "OrderedMap_inv K om"
  shows "lookup K (om_pairs om) k =
     (case lookup K (om_m om) k of Some e \<Rightarrow> map_option evalue (cells (om_l om) e) | None \<Rightarrow> None)"
proof (cases "self_equal K k")
  case False
  then show ?thesis by (simp add: lookup_not_self)
next
  case True
  show ?thesis
  proof (cases "lookup K (om_m om) k")
    case None
    then have "k \<notin> fst ` set (om_pairs om)"
      using True om_keys_set [OF inv] by (simp add: lookup_None_iff)
    then have "lookup K (om_pairs om) k = None"
      using True by (simp add: lookup_None_iff)
    then show ?thesis using None by simp
  next
    case (Some e)
    obtain en where en: "cells (om_l om) e = Some en" "ekey en = k"
      using inv_found(4) [OF inv Some] by blast
    have "(k, evalue en) \<in> set (om_pairs om)"
      unfolding om_pairs_map [OF inv] using inv_found(3) [OF inv Some] en by force
    then have "lookup K (om_pairs om) k = Some (evalue en)"
      using om_pairs_ok [OF inv] True by (intro lookup_SomeI)
    then show ?thesis using Some en by simp
  qed
qed

lemma Store_pairs:
  assumes inv: "OrderedMap_inv K om" and h: "hashable K k"
  shows "\<exists>om'. OrderedMap_Store K om k v = Inr om' \<and> OrderedMap_inv K om' \<and>
           om_DefaultAbstractMap om' = om_DefaultAbstractMap om \<and>
           map_assign K (om_pairs om) k v = Inr (om_pairs om')"
proof (cases "lookup K (om_m om) k")
  case None
  let ?f = "free (om_l om)"
  let ?om' = "om\<lparr>om_m := om_m om @ [(k, ?f)],
            om_l := (om_l om)\<lparr>elems := elems (om_l om) @ [?f],
                          cells := (cells (om_l om))(?f \<mapsto> \<lparr>ekey = k, evalue = v\<rparr>),
                          free := Suc ?f\<rparr>\<rparr>"
  have st: "OrderedMap_Store K om k v = Inr ?om'" using h None by (rule Store_absent)
  have inv': "OrderedMap_inv K ?om'" using inv h None by (rule inv_Store_absent)
  have fresh: "?f \<notin> set (elems (om_l om))"
    using inv_lt [OF inv, of ?f] by auto
  have "\<not> (self_equal K k \<and> k \<in> fst ` set (om_pairs om))"
    using None om_keys_set [OF inv] lookup_None_iff [of K k "om_m om"] by blast
  then have a: "map_assign K (om_pairs om) k v = Inr (om_pairs om @ [(k, v)])"
    using h by (simp add: map_assign_def)
  have "om_pairs ?om' = om_pairs om @ [(k, v)]"
    unfolding om_pairs_map [OF inv'] om_pairs_map [OF inv]
    using fresh by auto
  with st inv' a show ?thesis by simp
next
  case (Some e)
  obtain en where en: "cells (om_l om) e = Some en" "ekey en = k"
    using inv_found(4) [OF inv Some] by blast
  let ?om' = "om\<lparr>om_l := (om_l om)\<lparr>cells := (cells (om_l om))(e \<mapsto> en\<lparr>evalue := v\<rparr>)\<rparr>\<rparr>"
  have st: "OrderedMap_Store K om k v = Inr ?om'" using h Some en(1) by (rule Store_present)
  have inv': "OrderedMap_inv K ?om'" using inv Some en(1) by (rule inv_Store_present)
  have isin: "self_equal K k \<and> k \<in> fst ` set (om_pairs om)"
    using inv_found(1,2) [OF inv Some] om_keys_set [OF inv] by force
  then have a: "map_assign K (om_pairs om) k v =
      Inr (map (\<lambda>p. if fst p = k then (k, v) else p) (om_pairs om))"
    using h by (simp add: map_assign_def)
  have key: "(ekey (the (cells (om_l om) e')) = k) = (e' = e)" if "e' \<in> set (elems (om_l om))" for e'
    using inv_node [OF inv that] inv_key_node [OF inv Some that] by auto
  have "om_pairs ?om' = map (\<lambda>p. if fst p = k then (k, v) else p) (om_pairs om)"
    unfolding om_pairs_map [OF inv'] om_pairs_map [OF inv]
    using key en by auto
  with st inv' a show ?thesis by simp
qed

lemma Delete_pairs:
  assumes inv: "OrderedMap_inv K om" and h: "hashable K k"
  shows "\<exists>om'. OrderedMap_Delete K om k = Inr om' \<and> OrderedMap_inv K om' \<and>
           om_DefaultAbstractMap om' = om_DefaultAbstractMap om \<and>
           map_delete K (om_pairs om) k = Inr (om_pairs om')"
proof (cases "lookup K (om_m om) k")
  case None
  have "self_equal K k \<Longrightarrow> filter (\<lambda>p. fst p \<noteq> k) (om_pairs om) = om_pairs om"
  proof -
    assume "self_equal K k"
    then have "k \<notin> fst ` set (om_pairs om)"
      using None om_keys_set [OF inv] by (simp add: lookup_None_iff)
    then show ?thesis by (intro filter_True) force
  qed
  then have "map_delete K (om_pairs om) k = Inr (om_pairs om)"
    using h by (simp add: map_delete_def)
  with inv Delete_absent [OF h None] show ?thesis by simp
next
  case (Some e)
  note mem = inv_found(3) [OF inv Some] and se = inv_found(2) [OF inv Some]
  let ?om' = "om\<lparr>om_m := filter (\<lambda>p. fst p \<noteq> k) (om_m om),
            om_l := (om_l om)\<lparr>elems := remove1 e (elems (om_l om))\<rparr>\<rparr>"
  have de: "OrderedMap_Delete K om k = Inr ?om'" using h Some mem by (rule Delete_present)
  have inv': "OrderedMap_inv K ?om'" using inv Some by (rule inv_Delete_present)
  have a: "map_delete K (om_pairs om) k = Inr (filter (\<lambda>p. fst p \<noteq> k) (om_pairs om))"
    using h se by (simp add: map_delete_def)
  have key: "(ekey (the (cells (om_l om) e')) \<noteq> k) = (e' \<noteq> e)" if "e' \<in> set (elems (om_l om))" for e'
    using inv_node [OF inv that] inv_key_node [OF inv Some that] by auto
  have rem: "remove1 e (elems (om_l om)) = filter (\<lambda>e'. e' \<noteq> e) (elems (om_l om))"
    using inv_distinct [OF inv] by (simp add: distinct_remove1_removeAll removeAll_filter_not_eq) metis
  have "om_pairs ?om' = filter (\<lambda>p. fst p \<noteq> k) (om_pairs om)"
    unfolding om_pairs_map [OF inv'] om_pairs_map [OF inv]
    using key by (simp add: rem filter_map comp_def cong: filter_cong)
  with de inv' a show ?thesis by simp
qed

lemma Load_pairs:
  assumes inv: "OrderedMap_inv K om"
  shows "OrderedMap_Load K V om k =
     (if hashable K k then
        Inr (case lookup K (om_pairs om) k of Some v \<Rightarrow> (v, True) | None \<Rightarrow> (zero_value V, False))
      else Inl Unhashable)"
proof (cases "lookup K (om_m om) k")
  case None
  then show ?thesis
    by (simp add: OrderedMap_Load_def map_index_lookup lookup_om_pairs [OF inv])
next
  case (Some e)
  with inv_found(4) [OF inv Some] show ?thesis
    by (auto simp: OrderedMap_Load_def map_index_lookup lookup_om_pairs [OF inv])
qed

lemma om_pairs_New: "om_pairs NewOrderedMap = []"
  by (simp add: om_pairs_def values_of_def NewOrderedMap_def list_New_def Let_def)

section \<open>Calls and sequences of calls\<close>

subsection \<open>Traversals\<close>

lemma visit_append_key: "visit append_key ps acc = acc @ map fst ps"
  by (induction ps arbitrary: acc) (auto simp: append_key_def)

lemma visit_add_one: "visit add_one ps n = n + length ps"
  by (induction ps arbitrary: n) (auto simp: add_one_def)

lemma visit_collect: "visit collect ps acc = acc @ ps"
  by (induction ps arbitrary: acc) (auto simp: collect_def)

lemma visit_counting_all:
  "\<forall>k v a. fst (f k v a) \<Longrightarrow> visit (counting f) ps (n, acc) = (n + length ps, visit f ps acc)"
proof (induction ps arbitrary: n acc)
  case Nil
  then show ?case by simp
next
  case (Cons p ps)
  obtain k v where p: "p = (k, v)" by (cases p)
  from Cons.prems have "fst (f k v acc)" by blast
  then obtain acc' where f: "f k v acc = (True, acc')"
    by (cases "f k v acc") auto
  show ?case
    using Cons.IH [OF Cons.prems, of "Suc n" acc'] by (simp add: p f counting_def)
qed

subsection \<open>Method calls on a consistent map\<close>

lemma wired_iff: "wired this = (\<exists>m. helper this = Some m \<and> impl m = Self)"
  by (auto simp: wired_def receiver_impl_def split: option.splits iface.splits)

lemma wired_helper: "wired this \<Longrightarrow> helper this' = helper this \<Longrightarrow> wired this'"
  by (simp add: wired_iff)

lemma impl_wired:
  assumes "wired this"
  shows "impl_Load K V this k = call_Load K V this k"
    and "impl_Store K this k v = call_Store K this k v"
    and "impl_Delete K this k = call_Delete K this k"
    and "impl_Range ord this f acc = call_Range ord this f acc"
  using assms by (simp_all add: wired_def impl_Load_def impl_Store_def impl_Delete_def impl_Range_def)

lemma consistent_concrete: "consistent K this \<Longrightarrow> concrete this"
  by (cases this) simp_all

lemma consistent_entries: "consistent K this \<Longrightarrow> entries_ok K (entries this)"
  by (cases this) (simp_all add: om_pairs_ok)

lemma call_Range_pairs:
  "concrete this \<Longrightarrow> call_Range ord this f acc = Inr (visit f (pairs ord this) acc)"
  by (cases this) (simp_all add: UnorderedMap_Range_def OrderedMap_Range_def)

lemma call_Load_contents:
  assumes "consistent K this"
  shows "call_Load K V this k =
     (if hashable K k then
        Inr (case contents K this k of Some v \<Rightarrow> (v, True) | None \<Rightarrow> (zero_value V, False))
      else Inl Unhashable)"
proof (cases this)
  case (Scaffold d)
  with assms show ?thesis by simp
next
  case (Unordered um)
  then show ?thesis
    by (cases "lookup K (um_m um) k")
       (simp_all add: contents_def UnorderedMap_Load_def map_index_lookup)
next
  case (Ordered om)
  with assms have "OrderedMap_inv K om" by simp
  from Load_pairs [OF this, of V k] Ordered show ?thesis by (simp add: contents_def)
qed

lemma call_Store_entries:
  assumes "consistent K this" "hashable K k"
  shows "\<exists>this'. call_Store K this k v = Inr this' \<and> consistent K this' \<and>
           helper this' = helper this \<and> ordered this' = ordered this \<and>
           map_assign K (entries this) k v = Inr (entries this')"
proof (cases this)
  case (Scaffold d)
  with assms show ?thesis by simp
next
  case (Unordered um)
  obtain m' where m': "map_assign K (um_m um) k v = Inr m'"
    using assms(2) by (simp add: map_assign_def)
  with assms(1) Unordered have "entries_ok K m'" by (auto intro: entries_ok_assign)
  with m' Unordered show ?thesis by (simp add: UnorderedMap_Store_def)
next
  case (Ordered om)
  with assms Store_pairs [of K om k v] show ?thesis by auto
qed

lemma call_Delete_entries:
  assumes "consistent K this" "hashable K k"
  shows "\<exists>this'. call_Delete K this k = Inr this' \<and> consistent K this' \<and>
           helper this' = helper this \<and> ordered this' = ordered this \<and>
           map_delete K (entries this) k = Inr (entries this')"
proof (cases this)
  case (Scaffold d)
  with assms show ?thesis by simp
next
  case (Unordered um)
  obtain m' where m': "map_delete K (um_m um) k = Inr m'"
    using assms(2) by (simp add: map_delete_def)
  with assms(1) Unordered have "entries_ok K m'" by (auto intro: entries_ok_delete)
  with m' Unordered show ?thesis by (simp add: UnorderedMap_Delete_def)
next
  case (Ordered om)
  with assms Delete_pairs [of K om k] show ?thesis by auto
qed

lemma call_unhashable:
  assumes "concrete this" "\<not> hashable K k"
  shows "call_Store K this k v = Inl Unhashable" "call_Delete K this k = Inl Unhashable"
    "call_Load K V this k = Inl Unhashable"
proof -
  show "call_Store K this k v = Inl Unhashable"
    using assms
    by (cases this) (simp_all add: UnorderedMap_Store_def map_assign_def Store_unhashable)
  show "call_Delete K this k = Inl Unhashable"
    using assms
    by (cases this) (simp_all add: UnorderedMap_Delete_def map_delete_def Delete_unhashable)
  show "call_Load K V this k = Inl Unhashable"
    using assms
    by (cases this) (simp_all add: UnorderedMap_Load_def OrderedMap_Load_def map_index_def)
qed

lemma call_Len_entries:
  "consistent K this \<Longrightarrow> call_Len ord this = Inr (length (entries this))"
  by (cases this) (simp_all add: UnorderedMap_Len_def OrderedMap_Len_def om_pairs_length)

lemma pairs_set: "order_ok ord this \<Longrightarrow> set (pairs ord this) = set (entries this)"
  by (cases this) (simp_all add: slots_set)

lemma pairs_length: "order_ok ord this \<Longrightarrow> length (pairs ord this) = length (entries this)"
  by (cases this) (simp_all add: slots_length)

lemma pairs_empty: "entries this = [] \<Longrightarrow> pairs ord this = []"
  by (cases this) (simp_all add: slots_Nil)

text \<open>The same through \<^verbatim>\<open>m.impl\<close>, on the bindings of the keys.\<close>

lemma wf_mapD: "wf_map K this \<Longrightarrow> wired this" "wf_map K this \<Longrightarrow> consistent K this"
  "wf_map K this \<Longrightarrow> concrete this"
  by (auto simp: wf_map_def intro: consistent_concrete)

lemma contents_assign:
  "map_assign K (entries this) k v = Inr (entries this') \<Longrightarrow>
   contents K this' k' = (if k' = k \<and> self_equal K k then Some v else contents K this k')"
  by (simp add: contents_def lookup_assign)

lemma contents_delete:
  "map_delete K (entries this) k = Inr (entries this') \<Longrightarrow>
   contents K this' k' = (if k' = k then None else contents K this k')"
  by (simp add: contents_def lookup_delete)

lemma contents_not_self: "\<not> self_equal K k \<Longrightarrow> contents K this k = None"
  by (simp add: contents_def lookup_not_self)

lemma impl_Load_contents:
  assumes "wf_map K this"
  shows "impl_Load K V this k =
     (if hashable K k then
        Inr (case contents K this k of Some v \<Rightarrow> (v, True) | None \<Rightarrow> (zero_value V, False))
      else Inl Unhashable)"
  using assms by (simp add: impl_wired wf_mapD call_Load_contents)

lemma impl_Store_entries:
  assumes "wf_map K this" "hashable K k"
  shows "\<exists>this'. impl_Store K this k v = Inr this' \<and> wf_map K this' \<and>
           ordered this' = ordered this \<and>
           map_assign K (entries this) k v = Inr (entries this')"
proof -
  from assms(1) have w: "wired this" and c: "consistent K this" by (simp_all add: wf_map_def)
  from call_Store_entries [OF c assms(2), of v] obtain this' where
    t: "call_Store K this k v = Inr this'" "consistent K this'" "helper this' = helper this"
       "ordered this' = ordered this" "map_assign K (entries this) k v = Inr (entries this')"
    by blast
  from wired_helper [OF w t(3)] t(2) have "wf_map K this'" by (simp add: wf_map_def)
  with t impl_wired(2) [OF w, of K k v] show ?thesis by simp
qed

lemma impl_Delete_entries:
  assumes "wf_map K this" "hashable K k"
  shows "\<exists>this'. impl_Delete K this k = Inr this' \<and> wf_map K this' \<and>
           ordered this' = ordered this \<and>
           map_delete K (entries this) k = Inr (entries this')"
proof -
  from assms(1) have w: "wired this" and c: "consistent K this" by (simp_all add: wf_map_def)
  from call_Delete_entries [OF c assms(2)] obtain this' where
    t: "call_Delete K this k = Inr this'" "consistent K this'" "helper this' = helper this"
       "ordered this' = ordered this" "map_delete K (entries this) k = Inr (entries this')"
    by blast
  from wired_helper [OF w t(3)] t(2) have "wf_map K this'" by (simp add: wf_map_def)
  with t impl_wired(3) [OF w, of K k] show ?thesis by simp
qed

lemma impl_unhashable:
  assumes "wf_map K this" "\<not> hashable K k"
  shows "impl_Store K this k v = Inl Unhashable" "impl_Delete K this k = Inl Unhashable"
    "impl_Load K V this k = Inl Unhashable"
  using assms by (simp_all add: impl_wired wf_mapD call_unhashable)

lemma impl_Range_pairs:
  "wired this \<Longrightarrow> concrete this \<Longrightarrow> impl_Range ord this f acc = Inr (visit f (pairs ord this) acc)"
  by (simp add: impl_wired call_Range_pairs)

subsection \<open>The derived operations on a consistent map\<close>

lemma map_delete_filter:
  assumes "hashable K k"
  shows "map_delete K m k = Inr (filter (\<lambda>p. \<not> (fst p = k \<and> self_equal K (fst p))) m)"
proof (cases "self_equal K k")
  case True
  then have "filter (\<lambda>p. \<not> (fst p = k \<and> self_equal K (fst p))) m = filter (\<lambda>p. fst p \<noteq> k) m"
    by (intro filter_cong) auto
  with assms True show ?thesis by (simp add: map_delete_def)
next
  case False
  then have "filter (\<lambda>p. \<not> (fst p = k \<and> self_equal K (fst p))) m = m"
    by (intro filter_True) auto
  with assms False show ?thesis by (simp add: map_delete_def)
qed

lemma delete_each_entries:
  assumes "wf_map K this" "list_all (hashable K) ks"
  shows "\<exists>this'. delete_each K ks this = Inr this' \<and> wf_map K this' \<and>
           ordered this' = ordered this \<and>
           entries this' = filter (\<lambda>p. \<not> (fst p \<in> set ks \<and> self_equal K (fst p))) (entries this)"
  using assms
proof (induction ks arbitrary: this)
  case Nil
  then show ?case by simp
next
  case (Cons k ks)
  from Cons.prems(2) have hk: "hashable K k" and hks: "list_all (hashable K) ks" by simp_all
  from impl_Delete_entries [OF Cons.prems(1) hk] obtain this1 where
    t1: "impl_Delete K this k = Inr this1" "wf_map K this1" "ordered this1 = ordered this"
        "map_delete K (entries this) k = Inr (entries this1)"
    by blast
  from t1(4) map_delete_filter [OF hk, of "entries this"]
  have e1: "entries this1 = filter (\<lambda>p. \<not> (fst p = k \<and> self_equal K (fst p))) (entries this)"
    by simp
  from Cons.IH [OF t1(2) hks] obtain this' where
    t': "delete_each K ks this1 = Inr this'" "wf_map K this'" "ordered this' = ordered this1"
        "entries this' = filter (\<lambda>p. \<not> (fst p \<in> set ks \<and> self_equal K (fst p))) (entries this1)"
    by blast
  have "entries this' =
        filter (\<lambda>p. \<not> (fst p \<in> set (k # ks) \<and> self_equal K (fst p))) (entries this)"
    unfolding t'(4) e1 filter_filter by (intro filter_cong) auto
  with t1 t' show ?case by simp
qed

lemma Clear_entries:
  assumes "wf_map K this" "order_ok ord this"
  shows "\<exists>this'. DefaultAbstractMap_Clear K ord this = Inr this' \<and> wf_map K this' \<and>
           ordered this' = ordered this \<and>
           entries this' = filter (\<lambda>p. \<not> self_equal K (fst p)) (entries this)"
proof -
  let ?ks = "map fst (pairs ord this)"
  have r: "impl_Range ord this append_key [] = Inr ?ks"
    using assms(1) by (simp add: impl_Range_pairs wf_mapD visit_append_key)
  have s: "set ?ks = fst ` set (entries this)"
    using pairs_set [OF assms(2)] by simp
  from consistent_entries [OF wf_mapD(2) [OF assms(1)]]
  have "list_all (hashable K) (map fst (entries this))" by (simp add: entries_ok_def)
  then have "list_all (hashable K) ?ks"
    using s unfolding list_all_iff by auto
  from delete_each_entries [OF assms(1) this] obtain this' where
    t': "delete_each K ?ks this = Inr this'" "wf_map K this'" "ordered this' = ordered this"
        "entries this' = filter (\<lambda>p. \<not> (fst p \<in> set ?ks \<and> self_equal K (fst p))) (entries this)"
    by blast
  have "entries this' = filter (\<lambda>p. \<not> self_equal K (fst p)) (entries this)"
    unfolding t'(4) s by (intro filter_cong) auto
  with t' r show ?thesis by (simp add: DefaultAbstractMap_Clear_def)
qed

lemma Len_pairs:
  "wired this \<Longrightarrow> concrete this \<Longrightarrow> DefaultAbstractMap_Len ord this = Inr (length (pairs ord this))"
  by (simp add: DefaultAbstractMap_Len_def impl_Range_pairs visit_add_one)

lemma Keys_pairs:
  "wired this \<Longrightarrow> concrete this \<Longrightarrow>
   DefaultAbstractMap_Keys ord this f acc = Inr (visit (\<lambda>k v. f k) (pairs ord this) acc)"
  by (simp add: DefaultAbstractMap_Keys_def impl_Range_pairs)

lemma Values_pairs:
  "wired this \<Longrightarrow> concrete this \<Longrightarrow>
   DefaultAbstractMap_Values ord this f acc = Inr (visit (\<lambda>k v. f v) (pairs ord this) acc)"
  by (simp add: DefaultAbstractMap_Values_def impl_Range_pairs)

lemma LoadOrStore_present:
  assumes "wf_map K this" "contents K this k = Some w" "hashable K k"
  shows "DefaultAbstractMap_LoadOrStore K V this k v = Inr ((w, True), this)"
  using assms by (simp add: DefaultAbstractMap_LoadOrStore_def impl_Load_contents)

lemma LoadOrStore_absent:
  assumes "wf_map K this" "contents K this k = None" "hashable K k"
  shows "\<exists>this'. DefaultAbstractMap_LoadOrStore K V this k v = Inr ((v, False), this') \<and>
           wf_map K this' \<and> ordered this' = ordered this \<and>
           map_assign K (entries this) k v = Inr (entries this')"
  using impl_Store_entries [OF assms(1) assms(3), of v] assms
  by (auto simp: DefaultAbstractMap_LoadOrStore_def impl_Load_contents)

lemma Swap_entries:
  assumes "wf_map K this" "hashable K k"
  shows "\<exists>this'. DefaultAbstractMap_Swap K V this k v =
             Inr ((case contents K this k of Some w \<Rightarrow> (w, True) | None \<Rightarrow> (zero_value V, False)), this') \<and>
           wf_map K this' \<and> ordered this' = ordered this \<and>
           map_assign K (entries this) k v = Inr (entries this')"
  using impl_Store_entries [OF assms, of v] assms
  by (auto simp: DefaultAbstractMap_Swap_def impl_Load_contents split: option.splits)

lemma LoadAndDelete_present:
  assumes "wf_map K this" "contents K this k = Some w" "hashable K k"
  shows "\<exists>this'. DefaultAbstractMap_LoadAndDelete K V this k = Inr ((w, True), this') \<and>
           wf_map K this' \<and> ordered this' = ordered this \<and>
           map_delete K (entries this) k = Inr (entries this')"
  using impl_Delete_entries [OF assms(1) assms(3)] assms
  by (auto simp: DefaultAbstractMap_LoadAndDelete_def impl_Load_contents)

lemma LoadAndDelete_absent:
  assumes "wf_map K this" "contents K this k = None" "hashable K k"
  shows "DefaultAbstractMap_LoadAndDelete K V this k = Inr ((zero_value V, False), this)"
  using assms by (simp add: DefaultAbstractMap_LoadAndDelete_def impl_Load_contents)

lemma CompareAndSwap_absent:
  assumes "wf_map K this" "contents K this k = None" "hashable K k"
  shows "DefaultAbstractMap_CompareAndSwap K V this k old new = Inr (False, this)"
  using assms by (simp add: DefaultAbstractMap_CompareAndSwap_def impl_Load_contents)

lemma CompareAndSwap_present:
  assumes "wf_map K this" "contents K this k = Some w" "hashable K k"
  shows "case iface_eq V w old of
           None \<Rightarrow> DefaultAbstractMap_CompareAndSwap K V this k old new = Inl Uncomparable
         | Some False \<Rightarrow> DefaultAbstractMap_CompareAndSwap K V this k old new = Inr (False, this)
         | Some True \<Rightarrow>
             (\<exists>this'. DefaultAbstractMap_CompareAndSwap K V this k old new = Inr (True, this') \<and>
                wf_map K this' \<and> ordered this' = ordered this \<and>
                map_assign K (entries this) k new = Inr (entries this'))"
  using impl_Store_entries [OF assms(1) assms(3), of new] assms
  by (auto simp: DefaultAbstractMap_CompareAndSwap_def impl_Load_contents split: option.splits bool.splits)

lemma CompareAndDelete_absent:
  assumes "wf_map K this" "contents K this k = None" "hashable K k"
  shows "DefaultAbstractMap_CompareAndDelete K V this k old = Inr (False, this)"
  using assms by (simp add: DefaultAbstractMap_CompareAndDelete_def impl_Load_contents)

lemma CompareAndDelete_present:
  assumes "wf_map K this" "contents K this k = Some w" "hashable K k"
  shows "case iface_eq V w old of
           None \<Rightarrow> DefaultAbstractMap_CompareAndDelete K V this k old = Inl Uncomparable
         | Some False \<Rightarrow> DefaultAbstractMap_CompareAndDelete K V this k old = Inr (False, this)
         | Some True \<Rightarrow>
             (\<exists>this'. DefaultAbstractMap_CompareAndDelete K V this k old = Inr (True, this') \<and>
                wf_map K this' \<and> ordered this' = ordered this \<and>
                map_delete K (entries this) k = Inr (entries this'))"
  using impl_Delete_entries [OF assms(1) assms(3)] assms
  by (auto simp: DefaultAbstractMap_CompareAndDelete_def impl_Load_contents split: option.splits bool.splits)

lemma derived_unhashable:
  assumes "wf_map K this" "\<not> hashable K k"
  shows "DefaultAbstractMap_LoadOrStore K V this k v = Inl Unhashable"
    "DefaultAbstractMap_Swap K V this k v = Inl Unhashable"
    "DefaultAbstractMap_LoadAndDelete K V this k = Inl Unhashable"
    "DefaultAbstractMap_CompareAndSwap K V this k old new = Inl Unhashable"
    "DefaultAbstractMap_CompareAndDelete K V this k old = Inl Unhashable"
  using assms
  by (simp_all add: DefaultAbstractMap_LoadOrStore_def DefaultAbstractMap_Swap_def
      DefaultAbstractMap_LoadAndDelete_def DefaultAbstractMap_CompareAndSwap_def
      DefaultAbstractMap_CompareAndDelete_def impl_unhashable)

subsection \<open>Every call as a Store, a Delete, a Clear or no change\<close>

lemma pairs_subset: "set (pairs ord this) \<subseteq> set (entries this)"
proof (cases this)
  case (Unordered um)
  have "set (slots ord m) \<subseteq> set m" for m :: "('a \<times> 'b) list"
    unfolding slots_def by (auto simp: map_filter_def split: if_splits)
  with Unordered show ?thesis by simp
qed simp_all

lemma Clear_total:
  assumes "wf_map K this"
  shows "\<exists>this'. DefaultAbstractMap_Clear K ord this = Inr this' \<and> wf_map K this' \<and>
           ordered this' = ordered this \<and> set (entries this') \<subseteq> set (entries this)"
proof -
  let ?ks = "map fst (pairs ord this)"
  have r: "impl_Range ord this append_key [] = Inr ?ks"
    using assms(1) by (simp add: impl_Range_pairs wf_mapD visit_append_key)
  from consistent_entries [OF wf_mapD(2) [OF assms(1)]]
  have "list_all (hashable K) (map fst (entries this))" by (simp add: entries_ok_def)
  then have "list_all (hashable K) ?ks"
    using pairs_subset [of ord this] unfolding list_all_iff by auto
  from delete_each_entries [OF assms(1) this] obtain this' where
    t': "delete_each K ?ks this = Inr this'" "wf_map K this'" "ordered this' = ordered this"
        "entries this' = filter (\<lambda>p. \<not> (fst p \<in> set ?ks \<and> self_equal K (fst p))) (entries this)"
    by blast
  from t'(4) have "set (entries this') \<subseteq> set (entries this)" by auto
  with t' r show ?thesis by (simp add: DefaultAbstractMap_Clear_def)
qed

lemma exec_Swap:
  assumes "wf_map K this"
  shows "exec K V (CallSwap k v) this = call_Store K this k v"
proof (cases "hashable K k")
  case True
  from Swap_entries [OF assms True, of V v] impl_Store_entries [OF assms True, of v]
  show ?thesis
    using assms by (auto simp: state_of_def DefaultAbstractMap_Swap_def impl_wired wf_mapD
        split: sum.splits prod.splits)
next
  case False
  with assms show ?thesis
    by (simp add: derived_unhashable state_of_def call_unhashable wf_mapD)
qed

lemma exec_LoadOrStore:
  assumes "wf_map K this"
  shows "exec K V (CallLoadOrStore k v) this =
     (if hashable K k then
        (case contents K this k of None \<Rightarrow> call_Store K this k v | Some w \<Rightarrow> Inr this)
      else Inl Unhashable)"
proof (cases "hashable K k")
  case True
  show ?thesis
  proof (cases "contents K this k")
    case None
    with True assms show ?thesis
      by (simp add: DefaultAbstractMap_LoadOrStore_def impl_Load_contents impl_wired wf_mapD
          state_of_def split: sum.splits)
  next
    case (Some w)
    with True assms show ?thesis by (simp add: LoadOrStore_present state_of_def)
  qed
next
  case False
  with assms show ?thesis by (simp add: derived_unhashable state_of_def)
qed

lemma exec_LoadAndDelete:
  assumes "wf_map K this"
  shows "exec K V (CallLoadAndDelete k) this =
     (if hashable K k then
        (case contents K this k of None \<Rightarrow> Inr this | Some w \<Rightarrow> call_Delete K this k)
      else Inl Unhashable)"
proof (cases "hashable K k")
  case True
  show ?thesis
  proof (cases "contents K this k")
    case None
    with True assms show ?thesis by (simp add: LoadAndDelete_absent state_of_def)
  next
    case (Some w)
    with True assms show ?thesis
      by (simp add: DefaultAbstractMap_LoadAndDelete_def impl_Load_contents impl_wired wf_mapD
          state_of_def split: sum.splits)
  qed
next
  case False
  with assms show ?thesis by (simp add: derived_unhashable state_of_def)
qed

lemma exec_CompareAndSwap:
  assumes "wf_map K this"
  shows "exec K V (CallCompareAndSwap k old new) this =
     (if hashable K k then
        (case contents K this k of
           None \<Rightarrow> Inr this
         | Some w \<Rightarrow>
             (case iface_eq V w old of
                None \<Rightarrow> Inl Uncomparable
              | Some True \<Rightarrow> call_Store K this k new
              | Some False \<Rightarrow> Inr this))
      else Inl Unhashable)"
proof (cases "hashable K k")
  case True
  show ?thesis
  proof (cases "contents K this k")
    case None
    with True assms show ?thesis by (simp add: CompareAndSwap_absent state_of_def)
  next
    case (Some w)
    with True assms show ?thesis
      by (simp add: DefaultAbstractMap_CompareAndSwap_def impl_Load_contents impl_wired wf_mapD
          state_of_def split: sum.splits option.splits bool.splits)
  qed
next
  case False
  with assms show ?thesis by (simp add: derived_unhashable state_of_def)
qed

lemma exec_CompareAndDelete:
  assumes "wf_map K this"
  shows "exec K V (CallCompareAndDelete k old) this =
     (if hashable K k then
        (case contents K this k of
           None \<Rightarrow> Inr this
         | Some w \<Rightarrow>
             (case iface_eq V w old of
                None \<Rightarrow> Inl Uncomparable
              | Some True \<Rightarrow> call_Delete K this k
              | Some False \<Rightarrow> Inr this))
      else Inl Unhashable)"
proof (cases "hashable K k")
  case True
  show ?thesis
  proof (cases "contents K this k")
    case None
    with True assms show ?thesis by (simp add: CompareAndDelete_absent state_of_def)
  next
    case (Some w)
    with True assms show ?thesis
      by (simp add: DefaultAbstractMap_CompareAndDelete_def impl_Load_contents impl_wired wf_mapD
          state_of_def split: sum.splits option.splits bool.splits)
  qed
next
  case False
  with assms show ?thesis by (simp add: derived_unhashable state_of_def)
qed

lemma exec_Load:
  assumes "wf_map K this"
  shows "exec K V (CallLoad k) this = (if hashable K k then Inr this else Inl Unhashable)"
  using assms by (simp add: call_Load_contents wf_mapD keep_def)

lemma exec_readers:
  assumes "wf_map K this"
  shows "exec K V (CallLen ord) this = Inr this"
    "exec K V (CallRange ord f acc) this = Inr this"
    "exec K V (CallKeys ord g acc) this = Inr this"
    "exec K V (CallValues ord h acc) this = Inr this"
  using assms call_Len_entries [of K this ord]
  by (simp_all add: keep_def wf_mapD call_Range_pairs Keys_pairs Values_pairs)

lemmas exec_nf = exec_Swap exec_LoadOrStore exec_LoadAndDelete exec_CompareAndSwap
  exec_CompareAndDelete exec_Load exec_readers

lemma call_Store_wf:
  assumes "wf_map K this" "call_Store K this k v = Inr this'"
  shows "hashable K k" "wf_map K this'" "ordered this' = ordered this"
    "map_assign K (entries this) k v = Inr (entries this')"
proof -
  show h: "hashable K k"
    using assms call_unhashable(1) [OF wf_mapD(3) [OF assms(1)], of K k v] by auto
  from impl_Store_entries [OF assms(1) h, of v] assms
  show "wf_map K this'" "ordered this' = ordered this"
    "map_assign K (entries this) k v = Inr (entries this')"
    by (auto simp: impl_wired wf_mapD)
qed

lemma call_Delete_wf:
  assumes "wf_map K this" "call_Delete K this k = Inr this'"
  shows "hashable K k" "wf_map K this'" "ordered this' = ordered this"
    "map_delete K (entries this) k = Inr (entries this')"
proof -
  show h: "hashable K k"
    using assms call_unhashable(2) [OF wf_mapD(3) [OF assms(1)], of K k] by auto
  from impl_Delete_entries [OF assms(1) h] assms
  show "wf_map K this'" "ordered this' = ordered this"
    "map_delete K (entries this) k = Inr (entries this')"
    by (auto simp: impl_wired wf_mapD)
qed

lemma call_Store_total:
  assumes "wf_map K this" "hashable K k"
  shows "\<exists>this'. call_Store K this k v = Inr this'"
  using impl_Store_entries [OF assms, of v] assms(1) by (auto simp: impl_wired wf_mapD)

lemma call_Delete_total:
  assumes "wf_map K this" "hashable K k"
  shows "\<exists>this'. call_Delete K this k = Inr this'"
  using impl_Delete_entries [OF assms] assms(1) by (auto simp: impl_wired wf_mapD)

lemma call_Store_error:
  assumes "wf_map K this" "call_Store K this k v = Inl e"
  shows "e = Unhashable \<and> \<not> hashable K k"
  using call_Store_total [OF assms(1), of k v] call_unhashable(1) [OF wf_mapD(3) [OF assms(1)], of K k v] assms(2)
  by (cases "hashable K k") auto

lemma call_Delete_error:
  assumes "wf_map K this" "call_Delete K this k = Inl e"
  shows "e = Unhashable \<and> \<not> hashable K k"
  using call_Delete_total [OF assms(1), of k] call_unhashable(2) [OF wf_mapD(3) [OF assms(1)], of K k] assms(2)
  by (cases "hashable K k") auto

subsection \<open>One call\<close>

lemma exec_wf:
  assumes "wf_map K this" "exec K V c this = Inr this'"
  shows "wf_map K this' \<and> ordered this' = ordered this"
proof (cases c)
  case (CallClear ord)
  with Clear_total [OF assms(1), of ord] assms(2) show ?thesis by auto
next
  case (CallStore k v)
  with call_Store_wf [OF assms(1), of k v this'] assms(2) show ?thesis by simp
next
  case (CallDelete k)
  with call_Delete_wf [OF assms(1), of k this'] assms(2) show ?thesis by simp
next
  case (CallSwap k v)
  with call_Store_wf [OF assms(1), of k v this'] assms show ?thesis
    unfolding CallSwap exec_nf [OF assms(1)] by simp
next
  case (CallLoadOrStore k v)
  with call_Store_wf [OF assms(1), of k v this'] assms show ?thesis
    unfolding CallLoadOrStore exec_nf [OF assms(1)] by (auto split: if_splits option.splits)
next
  case (CallLoadAndDelete k)
  with call_Delete_wf [OF assms(1), of k this'] assms show ?thesis
    unfolding CallLoadAndDelete exec_nf [OF assms(1)] by (auto split: if_splits option.splits)
next
  case (CallCompareAndSwap k old new)
  with call_Store_wf [OF assms(1), of k new this'] assms show ?thesis
    unfolding CallCompareAndSwap exec_nf [OF assms(1)] by (auto split: if_splits option.splits bool.splits)
next
  case (CallCompareAndDelete k old)
  with call_Delete_wf [OF assms(1), of k this'] assms show ?thesis
    unfolding CallCompareAndDelete exec_nf [OF assms(1)] by (auto split: if_splits option.splits bool.splits)
next
  case (CallLen ord)
  with assms show ?thesis unfolding CallLen exec_nf [OF assms(1)] by auto
next
  case (CallLoad k)
  with assms show ?thesis unfolding CallLoad exec_nf [OF assms(1)] by (auto split: if_splits)
next
  case (CallRange ord f acc)
  with assms show ?thesis unfolding CallRange exec_nf [OF assms(1)] by auto
next
  case (CallKeys ord g acc)
  with assms show ?thesis unfolding CallKeys exec_nf [OF assms(1)] by auto
next
  case (CallValues ord h acc)
  with assms show ?thesis unfolding CallValues exec_nf [OF assms(1)] by auto
qed

lemma exec_panics:
  assumes "wf_map K this" "exec K V c this = Inl e"
  shows "(e = Unhashable \<and> \<not> list_all (hashable K) (call_keys c)) \<or>
         (e = Uncomparable \<and> (\<exists>w old. iface_eq V w old = None) \<and>
          (\<exists>k old new. c = CallCompareAndSwap k old new \<or> c = CallCompareAndDelete k old))"
proof (cases c)
  case (CallClear ord)
  with Clear_total [OF assms(1), of ord] assms(2) show ?thesis by auto
next
  case (CallStore k v)
  with call_Store_error [OF assms(1), of k v e] assms(2) show ?thesis by simp
next
  case (CallDelete k)
  with call_Delete_error [OF assms(1), of k e] assms(2) show ?thesis by simp
next
  case (CallSwap k v)
  with call_Store_error [OF assms(1), of k v e] assms show ?thesis
    unfolding CallSwap exec_nf [OF assms(1)] by simp
next
  case (CallLoadOrStore k v)
  with call_Store_error [OF assms(1), of k v e] assms show ?thesis
    unfolding CallLoadOrStore exec_nf [OF assms(1)] by (auto split: if_splits option.splits)
next
  case (CallLoadAndDelete k)
  with call_Delete_error [OF assms(1), of k e] assms show ?thesis
    unfolding CallLoadAndDelete exec_nf [OF assms(1)] by (auto split: if_splits option.splits)
next
  case (CallCompareAndSwap k old new)
  with call_Store_error [OF assms(1), of k new e] assms show ?thesis
    unfolding CallCompareAndSwap exec_nf [OF assms(1)] by (auto split: if_splits option.splits bool.splits)
next
  case (CallCompareAndDelete k old)
  with call_Delete_error [OF assms(1), of k e] assms show ?thesis
    unfolding CallCompareAndDelete exec_nf [OF assms(1)] by (auto split: if_splits option.splits bool.splits)
next
  case (CallLen ord)
  with assms show ?thesis unfolding CallLen exec_nf [OF assms(1)] by auto
next
  case (CallLoad k)
  with assms show ?thesis unfolding CallLoad exec_nf [OF assms(1)] by (auto split: if_splits)
next
  case (CallRange ord f acc)
  with assms show ?thesis unfolding CallRange exec_nf [OF assms(1)] by auto
next
  case (CallKeys ord g acc)
  with assms show ?thesis unfolding CallKeys exec_nf [OF assms(1)] by auto
next
  case (CallValues ord h acc)
  with assms show ?thesis unfolding CallValues exec_nf [OF assms(1)] by auto
qed

subsection \<open>The calls against the specification\<close>

lemma keys_assign:
  "map_assign K ps k v = Inr ps' \<Longrightarrow> fst ` set ps' \<subseteq> insert k (fst ` set ps)"
  by (auto simp: map_assign_def split: if_splits)

lemma set_delete: "map_delete K ps k = Inr ps' \<Longrightarrow> set ps' \<subseteq> set ps"
  by (auto simp: map_delete_def split: if_splits)

lemma lookup_filter_not_self: "lookup K (filter (\<lambda>p. \<not> self_equal K (fst p)) ps) k = None"
  by (auto simp: lookup_def map_of_eq_None_iff)

lemma exec_refines:
  assumes "wf_map K this" "call_ok c this" "exec K V c this = Inr this'" "self_equal K k'"
  shows "contents K this' k' = spec_exec V c (contents K this) k'"
proof -
  have st: "contents K this' k' = ((contents K this)(k \<mapsto> v)) k'"
    if "call_Store K this k v = Inr this'" for k v
    using contents_assign [OF call_Store_wf(4) [OF assms(1) that], of k'] assms(4) by auto
  have de: "contents K this' k' = ((contents K this)(k := None)) k'"
    if "call_Delete K this k = Inr this'" for k
    using contents_delete [OF call_Delete_wf(4) [OF assms(1) that], of k'] by auto
  show ?thesis
  proof (cases c)
    case (CallClear ord)
    with Clear_entries [OF assms(1), of ord] assms(2,3) show ?thesis
      by (auto simp: contents_def lookup_filter_not_self)
  next
    case (CallStore k v)
    with st [of k v] assms(3) show ?thesis by simp
  next
    case (CallDelete k)
    with de [of k] assms(3) show ?thesis by simp
  next
    case (CallSwap k v)
    with st [of k v] assms(3) show ?thesis
      unfolding CallSwap exec_nf [OF assms(1)] by simp
  next
    case (CallLoadOrStore k v)
    with st [of k v] assms(3) show ?thesis
      unfolding CallLoadOrStore exec_nf [OF assms(1)] by (auto split: if_splits option.splits)
  next
    case (CallLoadAndDelete k)
    with de [of k] assms(3) show ?thesis
      unfolding CallLoadAndDelete exec_nf [OF assms(1)] by (auto split: if_splits option.splits)
  next
    case (CallCompareAndSwap k old new)
    with st [of k new] assms(3) show ?thesis
      unfolding CallCompareAndSwap exec_nf [OF assms(1)]
      by (auto split: if_splits option.splits bool.splits)
  next
    case (CallCompareAndDelete k old)
    with de [of k] assms(3) show ?thesis
      unfolding CallCompareAndDelete exec_nf [OF assms(1)]
      by (auto split: if_splits option.splits bool.splits)
  next
    case (CallLen ord)
    with assms(3) show ?thesis unfolding CallLen exec_nf [OF assms(1)] by auto
  next
    case (CallLoad k)
    with assms(3) show ?thesis unfolding CallLoad exec_nf [OF assms(1)] by (auto split: if_splits)
  next
    case (CallRange ord f acc)
    with assms(3) show ?thesis unfolding CallRange exec_nf [OF assms(1)] by auto
  next
    case (CallKeys ord g acc)
    with assms(3) show ?thesis unfolding CallKeys exec_nf [OF assms(1)] by auto
  next
    case (CallValues ord h acc)
    with assms(3) show ?thesis unfolding CallValues exec_nf [OF assms(1)] by auto
  qed
qed

lemma exec_keys:
  assumes "wf_map K this" "exec K V c this = Inr this'"
  shows "fst ` set (entries this') \<subseteq> fst ` set (entries this) \<union> set (call_keys c)"
proof -
  have st: "fst ` set (entries this') \<subseteq> insert k (fst ` set (entries this))"
    if "call_Store K this k v = Inr this'" for k v
    using keys_assign [OF call_Store_wf(4) [OF assms(1) that]] .
  have de: "fst ` set (entries this') \<subseteq> fst ` set (entries this)"
    if "call_Delete K this k = Inr this'" for k
    using set_delete [OF call_Delete_wf(4) [OF assms(1) that]] by auto
  show ?thesis
  proof (cases c)
    case (CallClear ord)
    with Clear_total [OF assms(1), of ord] assms(2) show ?thesis by auto
  next
    case (CallStore k v)
    with st [of k v] assms(2) show ?thesis by auto
  next
    case (CallDelete k)
    with de [of k] assms(2) show ?thesis by auto
  next
    case (CallSwap k v)
    with st [of k v] assms(2) show ?thesis
      unfolding CallSwap exec_nf [OF assms(1)] by auto
  next
    case (CallLoadOrStore k v)
    with st [of k v] assms(2) show ?thesis
      unfolding CallLoadOrStore exec_nf [OF assms(1)] by (auto split: if_splits option.splits)
  next
    case (CallLoadAndDelete k)
    with de [of k] assms(2) show ?thesis
      unfolding CallLoadAndDelete exec_nf [OF assms(1)] by (auto split: if_splits option.splits)
  next
    case (CallCompareAndSwap k old new)
    with st [of k new] assms(2) show ?thesis
      unfolding CallCompareAndSwap exec_nf [OF assms(1)]
      by (auto split: if_splits option.splits bool.splits)
  next
    case (CallCompareAndDelete k old)
    with de [of k] assms(2) show ?thesis
      unfolding CallCompareAndDelete exec_nf [OF assms(1)]
      by (auto split: if_splits option.splits bool.splits)
  next
    case (CallLen ord)
    with assms(2) show ?thesis unfolding CallLen exec_nf [OF assms(1)] by auto
  next
    case (CallLoad k)
    with assms(2) show ?thesis unfolding CallLoad exec_nf [OF assms(1)] by (auto split: if_splits)
  next
    case (CallRange ord f acc)
    with assms(2) show ?thesis unfolding CallRange exec_nf [OF assms(1)] by auto
  next
    case (CallKeys ord g acc)
    with assms(2) show ?thesis unfolding CallKeys exec_nf [OF assms(1)] by auto
  next
    case (CallValues ord h acc)
    with assms(2) show ?thesis unfolding CallValues exec_nf [OF assms(1)] by auto
  qed
qed

lemma CompareAndSwap_False:
  "DefaultAbstractMap_CompareAndSwap K V this k old new = Inr (False, this') \<Longrightarrow> this' = this"
  by (auto simp: DefaultAbstractMap_CompareAndSwap_def
      split: sum.splits prod.splits if_splits option.splits bool.splits)

lemma CompareAndDelete_False:
  "DefaultAbstractMap_CompareAndDelete K V this k old = Inr (False, this') \<Longrightarrow> this' = this"
  by (auto simp: DefaultAbstractMap_CompareAndDelete_def
      split: sum.splits prod.splits if_splits option.splits bool.splits)

lemma LoadOrStore_True:
  "DefaultAbstractMap_LoadOrStore K V this k v = Inr ((actual, True), this') \<Longrightarrow> this' = this"
  by (auto simp: DefaultAbstractMap_LoadOrStore_def
      split: sum.splits prod.splits if_splits option.splits bool.splits)

lemma exec_undisturbed:
  assumes "wf_map K this" "\<not> disturbs K V k0 c this" "exec K V c this = Inr this'"
  shows "contents K this' k0 = contents K this k0"
proof -
  have st: "contents K this' k0 = contents K this k0"
    if "call_Store K this k v = Inr this'" "k \<noteq> k0" for k v
    using contents_assign [OF call_Store_wf(4) [OF assms(1) that(1)], of k0] that(2) by auto
  have de: "contents K this' k0 = contents K this k0"
    if "call_Delete K this k = Inr this'" "k \<noteq> k0" for k
    using contents_delete [OF call_Delete_wf(4) [OF assms(1) that(1)], of k0] that(2) by auto
  show ?thesis
  proof (cases c)
    case (CallClear ord)
    with assms(2) show ?thesis by simp
  next
    case (CallStore k v)
    with st [of k v] assms(2,3) show ?thesis by auto
  next
    case (CallDelete k)
    with de [of k] assms(2,3) show ?thesis by auto
  next
    case (CallSwap k v)
    with assms(2) have "k \<noteq> k0" by simp
    with st [of k v] assms(3) show ?thesis
      unfolding CallSwap exec_nf [OF assms(1)] by auto
  next
    case (CallLoadAndDelete k)
    with assms(2) have "k \<noteq> k0" by simp
    with de [of k] assms(3) show ?thesis
      unfolding CallLoadAndDelete exec_nf [OF assms(1)] by (auto split: if_splits option.splits)
  next
    case (CallLoadOrStore k v)
    show ?thesis
    proof (cases "k = k0")
      case False
      with st [of k v] assms(3) show ?thesis
        unfolding CallLoadOrStore exec_nf [OF assms(1)] by (auto split: if_splits option.splits)
    next
      case True
      with assms(2,3) CallLoadOrStore LoadOrStore_True [of K V this k v _ this']
      have "this' = this"
        by (auto simp: state_of_def split: sum.splits prod.splits bool.splits)
      then show ?thesis by simp
    qed
  next
    case (CallCompareAndSwap k old new)
    show ?thesis
    proof (cases "k = k0")
      case False
      with st [of k new] assms(3) show ?thesis
        unfolding CallCompareAndSwap exec_nf [OF assms(1)]
        by (auto split: if_splits option.splits bool.splits)
    next
      case True
      with assms(2,3) CallCompareAndSwap CompareAndSwap_False [of K V this k old new this']
      have "this' = this"
        by (auto simp: state_of_def split: sum.splits prod.splits bool.splits)
      then show ?thesis by simp
    qed
  next
    case (CallCompareAndDelete k old)
    show ?thesis
    proof (cases "k = k0")
      case False
      with de [of k] assms(3) show ?thesis
        unfolding CallCompareAndDelete exec_nf [OF assms(1)]
        by (auto split: if_splits option.splits bool.splits)
    next
      case True
      with assms(2,3) CallCompareAndDelete CompareAndDelete_False [of K V this k old this']
      have "this' = this"
        by (auto simp: state_of_def split: sum.splits prod.splits bool.splits)
      then show ?thesis by simp
    qed
  next
    case (CallLen ord)
    with assms(3) show ?thesis unfolding CallLen exec_nf [OF assms(1)] by auto
  next
    case (CallLoad k)
    with assms(3) show ?thesis unfolding CallLoad exec_nf [OF assms(1)] by (auto split: if_splits)
  next
    case (CallRange ord f acc)
    with assms(3) show ?thesis unfolding CallRange exec_nf [OF assms(1)] by auto
  next
    case (CallKeys ord g acc)
    with assms(3) show ?thesis unfolding CallKeys exec_nf [OF assms(1)] by auto
  next
    case (CallValues ord h acc)
    with assms(3) show ?thesis unfolding CallValues exec_nf [OF assms(1)] by auto
  qed
qed

subsection \<open>Sequences of calls\<close>

lemma run_wf:
  assumes "wf_map K this" "run K V cs this = Inr this'"
  shows "wf_map K this' \<and> ordered this' = ordered this"
  using assms
proof (induction cs arbitrary: this)
  case Nil
  then show ?case by simp
next
  case (Cons c cs)
  from Cons.prems(2) obtain this1 where
    e: "exec K V c this = Inr this1" and r: "run K V cs this1 = Inr this'"
    by (auto split: sum.splits)
  from exec_wf [OF Cons.prems(1) e] Cons.IH [OF _ r] show ?case by simp
qed

lemma run_panics:
  assumes "wf_map K this" "run K V cs this = Inl e"
  shows "e = Unhashable \<or> e = Uncomparable"
  using assms
proof (induction cs arbitrary: this)
  case Nil
  then show ?case by simp
next
  case (Cons c cs)
  show ?case
  proof (cases "exec K V c this")
    case (Inl e')
    with Cons.prems(2) exec_panics [OF Cons.prems(1) Inl] show ?thesis by auto
  next
    case (Inr this1)
    with Cons.prems(2) exec_wf [OF Cons.prems(1) Inr] Cons.IH [of this1] show ?thesis by simp
  qed
qed

lemma run_total:
  assumes "wf_map K this" "\<forall>a b. iface_eq V a b \<noteq> None"
    "list_all (\<lambda>c. list_all (hashable K) (call_keys c)) cs"
  shows "\<exists>this'. run K V cs this = Inr this'"
  using assms(1,3)
proof (induction cs arbitrary: this)
  case Nil
  then show ?case by simp
next
  case (Cons c cs)
  from Cons.prems(2) have hc: "list_all (hashable K) (call_keys c)"
    and hcs: "list_all (\<lambda>c. list_all (hashable K) (call_keys c)) cs" by simp_all
  show ?case
  proof (cases "exec K V c this")
    case (Inl e')
    from exec_panics [OF Cons.prems(1) Inl] hc assms(2) show ?thesis by auto
  next
    case (Inr this1)
    with exec_wf [OF Cons.prems(1) Inr] Cons.IH [of this1] hcs show ?thesis by simp
  qed
qed

lemma ordered_order_ok: "ordered this \<Longrightarrow> order_ok ord this"
  by (cases this) simp_all



lemma spec_exec_agree:
  assumes "\<forall>k. self_equal K k \<longrightarrow> m k = m' k" "self_equal K k'"
  shows "spec_exec V c m k' = spec_exec V c m' k'"
proof (cases c)
  case (CallCompareAndSwap k old new)
  show ?thesis
  proof (cases "k = k'")
    case True
    with assms have "m k = m' k" by simp
    with CallCompareAndSwap assms show ?thesis by (simp split: option.splits)
  next
    case False
    with CallCompareAndSwap assms show ?thesis by (simp split: option.splits)
  qed
next
  case (CallCompareAndDelete k old)
  show ?thesis
  proof (cases "k = k'")
    case True
    with assms have "m k = m' k" by simp
    with CallCompareAndDelete assms show ?thesis by (simp split: option.splits)
  next
    case False
    with CallCompareAndDelete assms show ?thesis by (simp split: option.splits)
  qed
next
  case (CallLoadOrStore k v)
  show ?thesis
  proof (cases "k = k'")
    case True
    with assms have "m k = m' k" by simp
    with CallLoadOrStore assms show ?thesis by (simp split: option.splits)
  next
    case False
    with CallLoadOrStore assms show ?thesis by (simp split: option.splits)
  qed
qed (use assms in simp_all)

lemma spec_run_agree:
  assumes "\<forall>k. self_equal K k \<longrightarrow> m k = m' k" "self_equal K k'"
  shows "spec_run V cs m k' = spec_run V cs m' k'"
  using assms(1)
proof (induction cs arbitrary: m m')
  case Nil
  with assms(2) show ?case by simp
next
  case (Cons c cs)
  have "\<forall>k. self_equal K k \<longrightarrow> spec_exec V c m k = spec_exec V c m' k"
    using spec_exec_agree [OF Cons.prems] by blast
  from Cons.IH [OF this] show ?case by simp
qed

lemma run_refines:
  assumes "wf_map K this" "run_ok K V cs this" "run K V cs this = Inr this'" "self_equal K k"
  shows "contents K this' k = spec_run V cs (contents K this) k"
  using assms(1,2,3)
proof (induction cs arbitrary: this)
  case Nil
  then show ?case by simp
next
  case (Cons c cs)
  from Cons.prems(3) obtain this1 where
    e: "exec K V c this = Inr this1" and r: "run K V cs this1 = Inr this'"
    by (auto split: sum.splits)
  from Cons.prems(2) e have ok: "call_ok c this" "run_ok K V cs this1" by simp_all
  have "\<forall>k. self_equal K k \<longrightarrow> contents K this1 k = spec_exec V c (contents K this) k"
    using exec_refines [OF Cons.prems(1) ok(1) e] by blast
  from spec_run_agree [OF this assms(4)]
  have "spec_run V cs (contents K this1) k = spec_run V cs (spec_exec V c (contents K this)) k" .
  with Cons.IH [OF conjunct1 [OF exec_wf [OF Cons.prems(1) e]] ok(2) r] show ?case by simp
qed

lemma run_keys:
  assumes "wf_map K this" "run K V cs this = Inr this'"
  shows "fst ` set (entries this') \<subseteq> fst ` set (entries this) \<union> (\<Union>c \<in> set cs. set (call_keys c))"
  using assms
proof (induction cs arbitrary: this)
  case Nil
  then show ?case by simp
next
  case (Cons c cs)
  from Cons.prems(2) obtain this1 where
    e: "exec K V c this = Inr this1" and r: "run K V cs this1 = Inr this'"
    by (auto split: sum.splits)
  have a: "fst ` set (entries this1) \<subseteq> fst ` set (entries this) \<union> set (call_keys c)"
    using exec_keys [OF Cons.prems(1) e] .
  have b: "fst ` set (entries this') \<subseteq> fst ` set (entries this1) \<union> (\<Union>c \<in> set cs. set (call_keys c))"
    using Cons.IH [OF conjunct1 [OF exec_wf [OF Cons.prems(1) e]] r] .
  show ?case
  proof
    fix x assume "x \<in> fst ` set (entries this')"
    with b have "x \<in> fst ` set (entries this1) \<or> x \<in> (\<Union>c \<in> set cs. set (call_keys c))" by blast
    with a have "x \<in> fst ` set (entries this) \<or> x \<in> set (call_keys c) \<or>
        x \<in> (\<Union>c \<in> set cs. set (call_keys c))" by blast
    then show "x \<in> fst ` set (entries this) \<union> (\<Union>c \<in> set (c # cs). set (call_keys c))"
      by simp
  qed
qed

lemma run_undisturbed:
  assumes "wf_map K this" "undisturbed K V k cs this" "run K V cs this = Inr this'"
  shows "contents K this' k = contents K this k"
  using assms
proof (induction cs arbitrary: this)
  case Nil
  then show ?case by simp
next
  case (Cons c cs)
  from Cons.prems(3) obtain this1 where
    e: "exec K V c this = Inr this1" and r: "run K V cs this1 = Inr this'"
    by (auto split: sum.splits)
  from Cons.prems(2) e have u: "\<not> disturbs K V k c this" "undisturbed K V k cs this1" by simp_all
  from exec_undisturbed [OF Cons.prems(1) u(1) e]
    Cons.IH [OF conjunct1 [OF exec_wf [OF Cons.prems(1) e]] u(2) r]
  show ?case by simp
qed

lemma spec_run_unnamed:
  assumes "m k = None" "\<forall>c \<in> set cs. k \<notin> set (call_keys c)"
  shows "spec_run V cs m k = None"
  using assms
proof (induction cs arbitrary: m)
  case Nil
  then show ?case by simp
next
  case (Cons c cs)
  from Cons.prems have "spec_exec V c m k = None"
    by (cases c) (auto split: option.splits)
  with Cons.IH [of "spec_exec V c m"] Cons.prems(2) show ?case by simp
qed

lemma spec_run_finite: "finite (dom m) \<Longrightarrow> finite (dom (spec_run V cs m))"
proof (induction cs arbitrary: m)
  case Nil
  then show ?case by simp
next
  case (Cons c cs)
  have "finite (dom (spec_exec V c m))"
    using Cons.prems by (cases c) (auto split: option.splits)
  with Cons.IH show ?case by simp
qed

section \<open>Properties of the maps\<close>

subsection \<open>The constructors\<close>

lemma wf_New:
  "wf_map K (Unordered NewUnorderedMap)" "wf_map K (Ordered NewOrderedMap)"
proof -
  show "wf_map K (Unordered NewUnorderedMap)"
    by (simp add: wf_map_def wired_iff NewUnorderedMap_def NewDefaultAbstractMap_def
        entries_ok_Nil Let_def)
  have "wired (Ordered NewOrderedMap)"
    by (simp add: wired_iff NewOrderedMap_def NewDefaultAbstractMap_def Let_def)
  then show "wf_map K (Ordered NewOrderedMap)"
    by (simp add: wf_map_def inv_New)
qed

lemma um_m_New: "um_m NewUnorderedMap = []"
  by (simp add: NewUnorderedMap_def Let_def)

lemma entries_New:
  "entries (Unordered NewUnorderedMap) = []" "entries (Ordered NewOrderedMap) = []"
  by (simp_all add: NewUnorderedMap_def om_pairs_New Let_def)

lemma contents_New:
  "contents K (Unordered NewUnorderedMap) = Map.empty"
  "contents K (Ordered NewOrderedMap) = Map.empty"
  unfolding contents_def entries_New by (simp_all add: lookup_def fun_eq_iff)

lemma ordered_cases: "ordered this \<Longrightarrow> \<exists>om. this = Ordered om"
  by (cases this) simp_all

text \<open>Every map reached from a constructor is in a consistent state, and its helper
  points back to it.\<close>

lemma constructed_wf:
  assumes "this0 = Unordered NewUnorderedMap \<or> this0 = Ordered NewOrderedMap"
    and "run K V cs this0 = Inr this"
  shows "wf_map K this"
proof -
  from assms(1) have "wf_map K this0" by (auto simp: wf_New)
  from run_wf [OF this assms(2)] show ?thesis by simp
qed

subsection \<open>Load before and after a call\<close>

lemma Load_others:
  assumes "consistent K this" "consistent K this'"
    and "\<And>k'. k' \<noteq> k \<Longrightarrow> contents K this' k' = contents K this k'"
  shows "\<forall>k'. k' \<noteq> k \<longrightarrow> call_Load K V this' k' = call_Load K V this k'"
  using assms(3) by (simp add: call_Load_contents [OF assms(1)] call_Load_contents [OF assms(2)])

lemma Load_found:
  assumes "consistent K this" "call_Load K V this k = Inr (w, True)"
  shows "hashable K k" "contents K this k = Some w"
  using assms(2) unfolding call_Load_contents [OF assms(1)]
  by (auto split: if_splits option.splits)

lemma Load_missed:
  assumes "consistent K this" "call_Load K V this k = Inr (d, False)"
  shows "hashable K k" "contents K this k = None" "d = zero_value V"
  using assms(2) unfolding call_Load_contents [OF assms(1)]
  by (auto split: if_splits option.splits)

lemma Load_panicked:
  assumes "consistent K this" "call_Load K V this k = Inl e"
  shows "\<not> hashable K k" "e = Unhashable"
  using assms(2) unfolding call_Load_contents [OF assms(1)]
  by (auto split: if_splits option.splits)

lemma Load_after_assign:
  assumes "wf_map K this" "wf_map K this'" "hashable K k"
    "map_assign K (entries this) k v = Inr (entries this')"
  shows "call_Load K V this' k =
           (if self_equal K k then Inr (v, True) else Inr (zero_value V, False))"
    "\<forall>k'. k' \<noteq> k \<longrightarrow> call_Load K V this' k' = call_Load K V this k'"
proof -
  have c: "consistent K this" "consistent K this'" using assms(1,2) by (auto dest: wf_mapD)
  show "call_Load K V this' k =
           (if self_equal K k then Inr (v, True) else Inr (zero_value V, False))"
    using assms(3) contents_assign [OF assms(4), of k] contents_not_self [of K k this]
    by (simp add: call_Load_contents [OF c(2)])
  show "\<forall>k'. k' \<noteq> k \<longrightarrow> call_Load K V this' k' = call_Load K V this k'"
    by (rule Load_others [OF c]) (simp add: contents_assign [OF assms(4)])
qed

lemma Load_after_delete:
  assumes "wf_map K this" "wf_map K this'" "hashable K k"
    "map_delete K (entries this) k = Inr (entries this')"
  shows "call_Load K V this' k = Inr (zero_value V, False)"
    "\<forall>k'. k' \<noteq> k \<longrightarrow> call_Load K V this' k' = call_Load K V this k'"
proof -
  have c: "consistent K this" "consistent K this'" using assms(1,2) by (auto dest: wf_mapD)
  show "call_Load K V this' k = Inr (zero_value V, False)"
    using assms(3) contents_delete [OF assms(4), of k]
    by (simp add: call_Load_contents [OF c(2)])
  show "\<forall>k'. k' \<noteq> k \<longrightarrow> call_Load K V this' k' = call_Load K V this k'"
    by (rule Load_others [OF c]) (simp add: contents_delete [OF assms(4)])
qed

subsection \<open>Enumerations of small maps\<close>

lemma enumerates_Nil: "enumerates [] []"
  by (simp add: enumerates_def)

lemma enumerates_one: "enumerates [0] [a]"
  by (auto simp: enumerates_def lessThan_Suc)

lemma enumerates_two:
  "enumerates [0, 1] [a, b]" "enumerates [1, 0] [a, b]"
  "enumerates [0, Suc 0] [a, b]" "enumerates [Suc 0, 0] [a, b]"
  by (auto simp: enumerates_def lessThan_Suc)

text \<open>Definitions to unfold when a call is evaluated on concrete arguments.\<close>

lemmas eval_defs =
  NewUnorderedMap_def NewOrderedMap_def NewDefaultAbstractMap_def Let_def
  UnorderedMap_Store_def UnorderedMap_Load_def UnorderedMap_Delete_def UnorderedMap_Len_def
  UnorderedMap_Range_def OrderedMap_Store_def OrderedMap_Load_def OrderedMap_Delete_def
  OrderedMap_Len_def OrderedMap_Range_def om_pairs_def values_of_def assign_value_def
  list_New_def PushBack_def Remove_def map_index_def map_assign_def map_delete_def slots_def
  List.map_filter_def receiver_impl_def impl_Load_def impl_Store_def impl_Delete_def
  impl_Range_def DefaultAbstractMap_Clear_def DefaultAbstractMap_CompareAndDelete_def
  DefaultAbstractMap_CompareAndSwap_def DefaultAbstractMap_Len_def
  DefaultAbstractMap_LoadAndDelete_def DefaultAbstractMap_LoadOrStore_def
  DefaultAbstractMap_Keys_def DefaultAbstractMap_Values_def DefaultAbstractMap_Swap_def
  DefaultAbstractMap_Delete_def DefaultAbstractMap_Load_def DefaultAbstractMap_Range_def
  keep_def state_of_def append_key_def add_one_def collect_def counting_def counting1_def
  int_keys_def string_keys_def float64_keys_def any_keys_def int_values_def float64_values_def
  slice_values_def any_values_def

subsection \<open>The order of an OrderedMap\<close>

lemma Range_om_pairs: "OrderedMap_Range om f acc = visit f (om_pairs om) acc"
  by (simp add: OrderedMap_Range_def)

lemma run_insertion_order:
  assumes "wf_map K this" "ordered this" "list_all store_delete_clear cs" "good_calls K cs"
    "list_all (self_equal K) (map fst (entries this))"
  shows "\<exists>this'. run K V cs this = Inr this' \<and>
           map fst (entries this') = insertion_order cs (map fst (entries this))"
  using assms
proof (induction cs arbitrary: this)
  case Nil
  then show ?case by simp
next
  case (Cons c cs)
  from Cons.prems(3) have c: "store_delete_clear c" and cs: "list_all store_delete_clear cs"
    by simp_all
  from Cons.prems(4) have g: "list_all (good_key K) (call_keys c)" and gs: "good_calls K cs"
    by (simp_all add: good_calls_def)
  have step: "\<exists>this1. exec K V c this = Inr this1 \<and>
      insertion_order (c # cs) (map fst (entries this)) = insertion_order cs (map fst (entries this1)) \<and>
      list_all (self_equal K) (map fst (entries this1))"
  proof (cases c)
    case (CallStore k v)
    with g have gk: "good_key K k" by simp
    then have h: "hashable K k" by (simp add: good_key_def)
    from call_Store_total [OF Cons.prems(1) h, of v] obtain this1 where
      t: "call_Store K this k v = Inr this1" by blast
    from call_Store_wf(4) [OF Cons.prems(1) t] map_assign_good [OF gk, of "entries this" v]
    have e: "entries this1 = seq_store k v (entries this)" by simp
    with gk Cons.prems(5) have "list_all (self_equal K) (map fst (entries this1))"
      by (simp add: keys_seq_store good_key_def)
    with t e CallStore show ?thesis by (simp add: keys_seq_store)
  next
    case (CallDelete k)
    with g have gk: "good_key K k" by simp
    then have h: "hashable K k" by (simp add: good_key_def)
    from call_Delete_total [OF Cons.prems(1) h] obtain this1 where
      t: "call_Delete K this k = Inr this1" by blast
    from call_Delete_wf(4) [OF Cons.prems(1) t] map_delete_good [OF gk, of "entries this"]
    have e: "entries this1 = seq_delete k (entries this)" by simp
    with Cons.prems(5) have "list_all (self_equal K) (map fst (entries this1))"
      by (auto simp: keys_seq_delete list_all_iff)
    with t e CallDelete show ?thesis by (simp add: keys_seq_delete)
  next
    case (CallClear ord)
    from Clear_entries [OF Cons.prems(1) ordered_order_ok [OF Cons.prems(2)], of ord] obtain this1 where
      t: "DefaultAbstractMap_Clear K ord this = Inr this1"
        "entries this1 = filter (\<lambda>p. \<not> self_equal K (fst p)) (entries this)" by blast
    from t(2) Cons.prems(5) have "entries this1 = []"
      by (auto simp: filter_empty_conv list_all_iff)
    with t CallClear show ?thesis by simp
  qed (use c in simp_all)
  then obtain this1 where t: "exec K V c this = Inr this1"
    "insertion_order (c # cs) (map fst (entries this)) = insertion_order cs (map fst (entries this1))"
    "list_all (self_equal K) (map fst (entries this1))" by blast
  from exec_wf [OF Cons.prems(1) t(1)] Cons.prems(2)
  have w: "wf_map K this1" "ordered this1" by simp_all
  from Cons.IH [OF w cs gs t(3)] t(1,2) show ?case by simp
qed

text \<open>
  C1 as stated fails for a key type with a key that does not equal itself: with
  \<^verbatim>\<open>float64\<close> keys, \<^verbatim>\<open>om.m[NaN]\<close> never finds an entry, so every Store of NaN appends a new
  node and Delete of NaN removes nothing. After Store(NaN, 1), Store(NaN, 2), Delete(NaN)
  a full Range meets NaN twice, where the specification leaves no key.
\<close>

theorem OrderedMap_Range_NaN_counterexample:
  "\<exists>om. run float64_keys int_values
           [CallStore NaN 1, CallStore NaN 2, CallDelete NaN :: (float64, int, unit) call]
           (Ordered NewOrderedMap) = Inr (Ordered om) \<and>
        OrderedMap_Range om collect [] = [(NaN, 1), (NaN, 2)] \<and>
        OrderedMap_Range om append_key [] \<noteq>
          insertion_order [CallStore NaN 1, CallStore NaN 2, CallDelete NaN :: (float64, int, unit) call] []"
  by (simp add: eval_defs)

text \<open>
  C1, amended. After every sequence of Store, Delete and Clear calls on a new OrderedMap
  whose keys can be hashed and equal themselves, a full Range meets the keys in the order
  they were first inserted, excluding deleted keys. In the state reached, a Store of such
  a key leaves the sequence of pairs as the specification says (a present key keeps its
  position and gets the new value, an absent key goes to the tail) and the value is what
  Load returns; a Store of a key right after its Delete puts it at the tail.
\<close>

theorem OrderedMap_Range_insertion_order:
  assumes "list_all store_delete_clear cs" and "good_calls K cs"
  shows "\<exists>om. run K V cs (Ordered NewOrderedMap) = Inr (Ordered om) \<and>
           OrderedMap_Range om append_key [] = insertion_order cs [] \<and>
           (\<forall>k v. good_key K k \<longrightarrow>
              (\<exists>om1. OrderedMap_Store K om k v = Inr om1 \<and>
                 OrderedMap_Range om1 collect [] = seq_store k v (OrderedMap_Range om collect []) \<and>
                 OrderedMap_Load K V om1 k = Inr (v, True)) \<and>
              (\<exists>om2 om3. OrderedMap_Delete K om k = Inr om2 \<and>
                 OrderedMap_Store K om2 k v = Inr om3 \<and>
                 OrderedMap_Range om3 append_key [] = removeAll k (insertion_order cs []) @ [k]))"
proof -
  have wf0: "wf_map K (Ordered NewOrderedMap :: ('a, 'b) AbstractMap)" by (rule wf_New)
  have e0: "entries (Ordered NewOrderedMap :: ('a, 'b) AbstractMap) = []" by (rule entries_New)
  have o0: "ordered (Ordered NewOrderedMap :: ('a, 'b) AbstractMap)" by simp
  have s0: "list_all (self_equal K) (map fst (entries (Ordered NewOrderedMap :: ('a, 'b) AbstractMap)))"
    unfolding e0 by simp
  from run_insertion_order [OF wf0 o0 assms s0, of V] obtain this where
    r: "run K V cs (Ordered NewOrderedMap) = Inr this"
    and o: "map fst (entries this) = insertion_order cs []"
    unfolding e0 by auto
  from run_wf [OF wf0 r] have wf: "wf_map K this" and "ordered this" by simp_all
  then obtain om where om: "this = Ordered om" using ordered_cases by blast
  with wf have inv: "OrderedMap_inv K om" by (simp add: wf_map_def)
  from o om have keys: "map fst (om_pairs om) = insertion_order cs []" by simp
  have a: "\<exists>om1. OrderedMap_Store K om k v = Inr om1 \<and>
        OrderedMap_Range om1 collect [] = seq_store k v (OrderedMap_Range om collect []) \<and>
        OrderedMap_Load K V om1 k = Inr (v, True)"
    if g: "good_key K k" for k v
  proof -
    from g have h: "hashable K k" and s: "self_equal K k" by (simp_all add: good_key_def)
    from Store_pairs [OF inv h, of v] obtain om1 where
      t: "OrderedMap_Store K om k v = Inr om1" "OrderedMap_inv K om1"
         "map_assign K (om_pairs om) k v = Inr (om_pairs om1)" by blast
    from t(3) map_assign_good [OF g, of "om_pairs om" v]
    have e: "om_pairs om1 = seq_store k v (om_pairs om)" by simp
    have "OrderedMap_Load K V om1 k = Inr (v, True)"
      using h s by (simp add: Load_pairs [OF t(2)] lookup_assign [OF t(3)])
    with t(1) e show ?thesis by (simp add: Range_om_pairs visit_collect)
  qed
  have b: "\<exists>om2 om3. OrderedMap_Delete K om k = Inr om2 \<and> OrderedMap_Store K om2 k v = Inr om3 \<and>
        OrderedMap_Range om3 append_key [] = removeAll k (insertion_order cs []) @ [k]"
    if g: "good_key K k" for k v
  proof -
    from g have h: "hashable K k" by (simp add: good_key_def)
    from Delete_pairs [OF inv h] obtain om2 where
      t2: "OrderedMap_Delete K om k = Inr om2" "OrderedMap_inv K om2"
         "map_delete K (om_pairs om) k = Inr (om_pairs om2)" by blast
    from Store_pairs [OF t2(2) h, of v] obtain om3 where
      t3: "OrderedMap_Store K om2 k v = Inr om3"
         "map_assign K (om_pairs om2) k v = Inr (om_pairs om3)" by blast
    from t2(3) map_delete_good [OF g, of "om_pairs om"]
    have e2: "om_pairs om2 = seq_delete k (om_pairs om)" by simp
    from t3(2) map_assign_good [OF g, of "om_pairs om2" v]
    have e3: "om_pairs om3 = seq_store k v (om_pairs om2)" by simp
    have "map fst (om_pairs om3) = removeAll k (insertion_order cs []) @ [k]"
      unfolding e3 e2 keys_seq_store keys_seq_delete keys by simp
    with t2(1) t3(1) show ?thesis by (simp add: Range_om_pairs visit_append_key)
  qed
  from r om keys a b show ?thesis by (simp add: Range_om_pairs visit_append_key)
qed

theorem OrderedMap_Range_insertion_order_witness:
  "(\<exists>om. run string_keys int_values
           [CallStore ''charlie'' 0, CallStore ''alpha'' 1, CallStore ''delta'' 2, CallStore ''beta'' 3,
            CallStore ''alpha'' 7, CallDelete ''delta'' :: (string, int, unit) call]
           (Ordered NewOrderedMap) = Inr (Ordered om) \<and>
         OrderedMap_Range om append_key [] = [''charlie'', ''alpha'', ''beta''] \<and>
         (\<exists>om1. OrderedMap_Store string_keys om ''charlie'' 9 = Inr om1 \<and>
            OrderedMap_Range om1 collect [] = seq_store ''charlie'' 9 (OrderedMap_Range om collect [])) \<and>
         (\<exists>om2 om3. OrderedMap_Delete string_keys om ''charlie'' = Inr om2 \<and>
            OrderedMap_Store string_keys om2 ''charlie'' 9 = Inr om3 \<and>
            OrderedMap_Range om3 append_key [] = [''alpha'', ''beta'', ''charlie''])) \<and>
   (\<exists>om. run string_keys int_values
           [CallStore ''zebra'' 0, CallStore ''apple'' 1, CallStore ''mango'' 2, CallClear [],
            CallStore ''apple'' 10, CallStore ''zebra'' 11, CallStore ''mango'' 12 :: (string, int, unit) call]
           (Ordered NewOrderedMap) = Inr (Ordered om) \<and>
         OrderedMap_Range om append_key [] = [''apple'', ''zebra'', ''mango''])"
proof -
  let ?cs = "[CallStore ''charlie'' 0, CallStore ''alpha'' 1, CallStore ''delta'' 2, CallStore ''beta'' 3,
            CallStore ''alpha'' 7, CallDelete ''delta'' :: (string, int, unit) call]"
  let ?cs2 = "[CallStore ''zebra'' 0, CallStore ''apple'' 1, CallStore ''mango'' 2, CallClear [],
            CallStore ''apple'' 10, CallStore ''zebra'' 11, CallStore ''mango'' 12 :: (string, int, unit) call]"
  have h: "list_all store_delete_clear ?cs" "good_calls string_keys ?cs"
    by (simp_all add: good_calls_def good_key_def string_keys_def)
  have h2: "list_all store_delete_clear ?cs2" "good_calls string_keys ?cs2"
    by (simp_all add: good_calls_def good_key_def string_keys_def)
  have g: "good_key string_keys ''charlie''" by (simp add: good_key_def string_keys_def)
  have ord: "insertion_order ?cs [] = [''charlie'', ''alpha'', ''beta'']" by simp
  have ord2: "insertion_order ?cs2 [] = [''apple'', ''zebra'', ''mango'']" by simp
  from OrderedMap_Range_insertion_order [OF h, of int_values]
  obtain om where om: "run string_keys int_values ?cs (Ordered NewOrderedMap) = Inr (Ordered om)"
    "OrderedMap_Range om append_key [] = insertion_order ?cs []"
    "\<And>k v. good_key string_keys k \<Longrightarrow>
       (\<exists>om1. OrderedMap_Store string_keys om k v = Inr om1 \<and>
          OrderedMap_Range om1 collect [] = seq_store k v (OrderedMap_Range om collect []) \<and>
          OrderedMap_Load string_keys int_values om1 k = Inr (v, True)) \<and>
       (\<exists>om2 om3. OrderedMap_Delete string_keys om k = Inr om2 \<and>
          OrderedMap_Store string_keys om2 k v = Inr om3 \<and>
          OrderedMap_Range om3 append_key [] = removeAll k (insertion_order ?cs []) @ [k])"
    by blast
  from OrderedMap_Range_insertion_order [OF h2, of int_values]
  obtain om' where om': "run string_keys int_values ?cs2 (Ordered NewOrderedMap) = Inr (Ordered om')"
    "OrderedMap_Range om' append_key [] = insertion_order ?cs2 []"
    by blast
  from om(3) [OF g, of 9] have
    s: "\<exists>om1. OrderedMap_Store string_keys om ''charlie'' 9 = Inr om1 \<and>
          OrderedMap_Range om1 collect [] = seq_store ''charlie'' 9 (OrderedMap_Range om collect [])"
    and d: "\<exists>om2 om3. OrderedMap_Delete string_keys om ''charlie'' = Inr om2 \<and>
          OrderedMap_Store string_keys om2 ''charlie'' 9 = Inr om3 \<and>
          OrderedMap_Range om3 append_key [] = removeAll ''charlie'' (insertion_order ?cs []) @ [''charlie'']"
    by blast+
  from d have d': "\<exists>om2 om3. OrderedMap_Delete string_keys om ''charlie'' = Inr om2 \<and>
          OrderedMap_Store string_keys om2 ''charlie'' 9 = Inr om3 \<and>
          OrderedMap_Range om3 append_key [] = [''alpha'', ''beta'', ''charlie'']"
    unfolding ord by simp
  from om(1) om(2) [unfolded ord] s d' om'(1) om'(2) [unfolded ord2] show ?thesis
    by blast
qed

subsection \<open>The index and the list of an OrderedMap\<close>







lemma OrderedMap_index_NaN:
  "\<exists>om. run float64_keys int_values [CallStore NaN 1, CallStore NaN 2 :: (float64, int, unit) call]
           (Ordered NewOrderedMap) = Inr (Ordered om) \<and>
        om_m om = [(NaN, 0), (NaN, 1)] \<and> elems (om_l om) = [0, 1] \<and>
        map_index float64_keys (om_m om) NaN = Inr None"
  by (simp add: eval_defs)


subsection \<open>Load after Store\<close>

text \<open>
  C3 as stated fails for a key that does not equal itself, and for a key that cannot be
  hashed: with \<^verbatim>\<open>float64\<close> keys, Load(NaN) right after Store(NaN, 5) finds nothing, on both
  maps; with keys of type \<^verbatim>\<open>any\<close>, Store of a key that holds a slice panics.
\<close>

theorem Load_after_Store_NaN_counterexample:
  "(\<exists>this1. call_Store float64_keys (Unordered NewUnorderedMap) NaN (5::int) = Inr this1 \<and>
       call_Load float64_keys int_values this1 NaN = Inr (0, False)) \<and>
   (\<exists>this1. call_Store float64_keys (Ordered NewOrderedMap) NaN (5::int) = Inr this1 \<and>
       call_Load float64_keys int_values this1 NaN = Inr (0, False)) \<and>
   call_Store any_keys (Unordered NewUnorderedMap) (BoxedSlice [1]) (5::int) = Inl Unhashable"
  by (simp add: eval_defs)

text \<open>
  C3, amended. On an UnorderedMap or OrderedMap in a consistent state, for a key k that
  can be hashed and equals itself: Store(k, v) followed by any calls of which none
  deletes k or stores to k in the state it is made in (Clear; Delete, LoadAndDelete,
  Store, Swap of k; a CompareAndDelete or CompareAndSwap of k that succeeds; a
  LoadOrStore of k that stores) is followed by Load(k) = (v, true). The calls return
  whenever their keys can be hashed and the comparison of the value type does not panic.
\<close>

theorem Load_after_Store:
  assumes "wf_map K this" and "good_key K k"
  shows "\<exists>this1. call_Store K this k v = Inr this1 \<and>
           (\<forall>this2. undisturbed K V k cs this1 \<and> run K V cs this1 = Inr this2 \<longrightarrow>
              call_Load K V this2 k = Inr (v, True)) \<and>
           ((\<forall>a b. iface_eq V a b \<noteq> None) \<and>
            list_all (\<lambda>c. list_all (hashable K) (call_keys c)) cs \<longrightarrow>
              (\<exists>this2. run K V cs this1 = Inr this2))"
proof -
  from assms(2) have h: "hashable K k" and s: "self_equal K k" by (simp_all add: good_key_def)
  from call_Store_total [OF assms(1) h, of v] obtain this1 where
    t: "call_Store K this k v = Inr this1" by blast
  from call_Store_wf [OF assms(1) t] have wf1: "wf_map K this1"
    and a: "map_assign K (entries this) k v = Inr (entries this1)" by simp_all
  from contents_assign [OF a, of k] s have c1: "contents K this1 k = Some v" by simp
  have "call_Load K V this2 k = Inr (v, True)"
    if u: "undisturbed K V k cs this1" and r: "run K V cs this1 = Inr this2" for this2
  proof -
    from run_wf [OF wf1 r] have wf2: "wf_map K this2" by simp
    from run_undisturbed [OF wf1 u r] c1 have "contents K this2 k = Some v" by simp
    with h show ?thesis by (simp add: call_Load_contents [OF wf_mapD(2) [OF wf2]])
  qed
  moreover have "\<exists>this2. run K V cs this1 = Inr this2"
    if "\<forall>a b. iface_eq V a b \<noteq> None" "list_all (\<lambda>c. list_all (hashable K) (call_keys c)) cs"
    using run_total [OF wf1 that] .
  ultimately show ?thesis using t by blast
qed

theorem Load_after_Store_witness:
  "\<exists>this1 this2.
     call_Store string_keys (Unordered NewUnorderedMap) ''a'' (1::int) = Inr this1 \<and>
     run string_keys int_values
       [CallStore ''b'' 2, CallCompareAndSwap ''a'' 5 6, CallLoadOrStore ''a'' 9,
        CallCompareAndDelete ''a'' 7, CallDelete ''b'', CallLen [0] :: (string, int, unit) call]
       this1 = Inr this2 \<and>
     call_Load string_keys int_values this2 ''a'' = Inr (1, True)"
proof -
  let ?cs = "[CallStore ''b'' 2, CallCompareAndSwap ''a'' 5 6, CallLoadOrStore ''a'' 9,
        CallCompareAndDelete ''a'' 7, CallDelete ''b'', CallLen [0] :: (string, int, unit) call]"
  have g: "good_key string_keys ''a''" by (simp add: good_key_def string_keys_def)
  obtain this1 where s: "call_Store string_keys (Unordered NewUnorderedMap) ''a'' (1::int) = Inr this1"
    and u: "undisturbed string_keys int_values ''a'' ?cs this1"
    and r: "\<exists>this2. run string_keys int_values ?cs this1 = Inr this2"
    by (simp add: eval_defs)
  from r obtain this2 where r2: "run string_keys int_values ?cs this1 = Inr this2" by blast
  from Load_after_Store [OF wf_New(1) g, of 1 int_values ?cs] s u r2
  have "call_Load string_keys int_values this2 ''a'' = Inr (1, True)" by auto
  with s r2 show ?thesis by blast
qed

subsection \<open>CompareAndSwap and CompareAndDelete\<close>

text \<open>
  C4 as stated fails: the value type is declared \<^verbatim>\<open>any\<close>, and for a value type that is
  not comparable the comparison \<^verbatim>\<open>any(value) == any(old)\<close> panics on a present key. A
  map of slices that holds \<^verbatim>\<open>"a": []int{1}\<close> neither swaps nor returns false on
  \<^verbatim>\<open>CompareAndSwap("a", []int{2}, []int{3})\<close>, and likewise for CompareAndDelete; so does
  a map of \<^verbatim>\<open>any\<close> that holds a slice.
\<close>

theorem CompareAndSwap_uncomparable_counterexample:
  "(\<exists>this. call_Store string_keys (Unordered NewUnorderedMap) ''a'' [1::int] = Inr this \<and>
      DefaultAbstractMap_CompareAndSwap string_keys slice_values this ''a'' [2] [3] = Inl Uncomparable \<and>
      DefaultAbstractMap_CompareAndSwap string_keys slice_values this ''a'' [2] [3] \<noteq> Inr (False, this) \<and>
      DefaultAbstractMap_CompareAndDelete string_keys slice_values this ''a'' [2] = Inl Uncomparable) \<and>
   (\<exists>this. call_Store string_keys (Ordered NewOrderedMap) ''a'' (BoxedSlice [1]) = Inr this \<and>
      DefaultAbstractMap_CompareAndSwap string_keys any_values this ''a'' (BoxedSlice [1]) (BoxedInt 3)
        = Inl Uncomparable)"
  by (simp add: eval_defs)

text \<open>
  C4, amended. On a map in a consistent state, let Load(k) give (w, found). When found
  is true and the comparison \<^verbatim>\<open>any(w) == any(old)\<close> gives true, CompareAndSwap(k, old, new)
  returns true and sets the value of k to new, and CompareAndDelete(k, old) returns true
  and deletes k, all other keys as before. When found is true and the comparison gives
  false (as it does for a NaN), both return false and leave the map as it is. When found
  is true and the comparison panics (both values of the same type, which is not
  comparable), both panic. When found is false (an absent key, and every key that does
  not equal itself), both return false and leave the map as it is. When Load panics (a
  key that cannot be hashed), so do both.
\<close>

theorem CompareAndSwap_CompareAndDelete_by_comparison:
  assumes "wf_map K this"
  shows "(\<forall>w. call_Load K V this k = Inr (w, True) \<longrightarrow>
            (case iface_eq V w old of
               Some True \<Rightarrow>
                 (\<exists>this'. DefaultAbstractMap_CompareAndSwap K V this k old new = Inr (True, this') \<and>
                     wf_map K this' \<and>
                     call_Load K V this' k = Inr (new, True) \<and>
                     (\<forall>k'. k' \<noteq> k \<longrightarrow> call_Load K V this' k' = call_Load K V this k')) \<and>
                 (\<exists>this'. DefaultAbstractMap_CompareAndDelete K V this k old = Inr (True, this') \<and>
                     wf_map K this' \<and>
                     call_Load K V this' k = Inr (zero_value V, False) \<and>
                     (\<forall>k'. k' \<noteq> k \<longrightarrow> call_Load K V this' k' = call_Load K V this k'))
             | Some False \<Rightarrow>
                 DefaultAbstractMap_CompareAndSwap K V this k old new = Inr (False, this) \<and>
                 DefaultAbstractMap_CompareAndDelete K V this k old = Inr (False, this)
             | None \<Rightarrow>
                 DefaultAbstractMap_CompareAndSwap K V this k old new = Inl Uncomparable \<and>
                 DefaultAbstractMap_CompareAndDelete K V this k old = Inl Uncomparable)) \<and>
         ((\<exists>d. call_Load K V this k = Inr (d, False)) \<longrightarrow>
            DefaultAbstractMap_CompareAndSwap K V this k old new = Inr (False, this) \<and>
            DefaultAbstractMap_CompareAndDelete K V this k old = Inr (False, this)) \<and>
         (\<forall>e. call_Load K V this k = Inl e \<longrightarrow>
            DefaultAbstractMap_CompareAndSwap K V this k old new = Inl e \<and>
            DefaultAbstractMap_CompareAndDelete K V this k old = Inl e)"
proof (intro conjI allI impI)
  fix w assume l: "call_Load K V this k = Inr (w, True)"
  note f = Load_found [OF wf_mapD(2) [OF assms] l]
  have s: "self_equal K k" using f(2) contents_not_self [of K k this] by (cases "self_equal K k") auto
  show "case iface_eq V w old of
          Some True \<Rightarrow>
            (\<exists>this'. DefaultAbstractMap_CompareAndSwap K V this k old new = Inr (True, this') \<and>
                wf_map K this' \<and>
                call_Load K V this' k = Inr (new, True) \<and>
                (\<forall>k'. k' \<noteq> k \<longrightarrow> call_Load K V this' k' = call_Load K V this k')) \<and>
            (\<exists>this'. DefaultAbstractMap_CompareAndDelete K V this k old = Inr (True, this') \<and>
                wf_map K this' \<and>
                call_Load K V this' k = Inr (zero_value V, False) \<and>
                (\<forall>k'. k' \<noteq> k \<longrightarrow> call_Load K V this' k' = call_Load K V this k'))
        | Some False \<Rightarrow>
            DefaultAbstractMap_CompareAndSwap K V this k old new = Inr (False, this) \<and>
            DefaultAbstractMap_CompareAndDelete K V this k old = Inr (False, this)
        | None \<Rightarrow>
            DefaultAbstractMap_CompareAndSwap K V this k old new = Inl Uncomparable \<and>
            DefaultAbstractMap_CompareAndDelete K V this k old = Inl Uncomparable"
  proof (cases "iface_eq V w old")
    case None
    with CompareAndSwap_present [OF assms f(2,1), of V old new]
      CompareAndDelete_present [OF assms f(2,1), of V old]
    show ?thesis by simp
  next
    case (Some b)
    show ?thesis
    proof (cases b)
      case False
      with Some CompareAndSwap_present [OF assms f(2,1), of V old new]
        CompareAndDelete_present [OF assms f(2,1), of V old]
      show ?thesis by simp
    next
      case True
      with Some CompareAndSwap_present [OF assms f(2,1), of V old new] obtain this1 where
        t1: "DefaultAbstractMap_CompareAndSwap K V this k old new = Inr (True, this1)"
          "wf_map K this1" "map_assign K (entries this) k new = Inr (entries this1)"
        by auto
      from True Some CompareAndDelete_present [OF assms f(2,1), of V old] obtain this2 where
        t2: "DefaultAbstractMap_CompareAndDelete K V this k old = Inr (True, this2)"
          "wf_map K this2" "map_delete K (entries this) k = Inr (entries this2)"
        by auto
      from Load_after_assign [OF assms t1(2) f(1) t1(3), of V] s t1(1,2)
      have a: "\<exists>this'. DefaultAbstractMap_CompareAndSwap K V this k old new = Inr (True, this') \<and>
                wf_map K this' \<and>
                call_Load K V this' k = Inr (new, True) \<and>
                (\<forall>k'. k' \<noteq> k \<longrightarrow> call_Load K V this' k' = call_Load K V this k')"
        by auto
      from Load_after_delete [OF assms t2(2) f(1) t2(3), of V] t2(1,2)
      have b: "\<exists>this'. DefaultAbstractMap_CompareAndDelete K V this k old = Inr (True, this') \<and>
                wf_map K this' \<and>
                call_Load K V this' k = Inr (zero_value V, False) \<and>
                (\<forall>k'. k' \<noteq> k \<longrightarrow> call_Load K V this' k' = call_Load K V this k')"
        by auto
      from a b Some True show ?thesis by simp
    qed
  qed
next
  assume "\<exists>d. call_Load K V this k = Inr (d, False)"
  then obtain d where l: "call_Load K V this k = Inr (d, False)" by blast
  note m = Load_missed [OF wf_mapD(2) [OF assms] l]
  show "DefaultAbstractMap_CompareAndSwap K V this k old new = Inr (False, this)"
    by (rule CompareAndSwap_absent [OF assms m(2,1)])
  show "DefaultAbstractMap_CompareAndDelete K V this k old = Inr (False, this)"
    by (rule CompareAndDelete_absent [OF assms m(2,1)])
next
  fix e assume l: "call_Load K V this k = Inl e"
  note p = Load_panicked [OF wf_mapD(2) [OF assms] l]
  show "DefaultAbstractMap_CompareAndSwap K V this k old new = Inl e"
    using derived_unhashable(4) [OF assms p(1)] p(2) by simp
  show "DefaultAbstractMap_CompareAndDelete K V this k old = Inl e"
    using derived_unhashable(5) [OF assms p(1)] p(2) by simp
qed

theorem CompareAndSwap_CompareAndDelete_by_comparison_witness:
  "\<exists>this this'.
     call_Store string_keys (Unordered NewUnorderedMap) ''a'' (BoxedInt 1) = Inr this \<and>
     DefaultAbstractMap_CompareAndSwap string_keys any_values this ''a'' (BoxedInt 1) (BoxedSlice [2])
       = Inr (True, this') \<and>
     call_Load string_keys any_values this' ''a'' = Inr (BoxedSlice [2], True) \<and>
     DefaultAbstractMap_CompareAndSwap string_keys any_values this' ''a'' (BoxedInt 1) (BoxedInt 3)
       = Inr (False, this') \<and>
     DefaultAbstractMap_CompareAndDelete string_keys any_values this' ''a'' (BoxedSlice [2])
       = Inl Uncomparable \<and>
     DefaultAbstractMap_CompareAndDelete string_keys any_values this' ''b'' (BoxedSlice [2])
       = Inr (False, this')"
proof -
  obtain this where s: "call_Store string_keys (Unordered NewUnorderedMap) ''a'' (BoxedInt 1) = Inr this"
    and l: "call_Load string_keys any_values this ''a'' = Inr (BoxedInt 1, True)"
    by (simp add: eval_defs)
  have wf: "wf_map string_keys this" by (rule call_Store_wf(2) [OF wf_New(1) s])
  have e: "iface_eq any_values (BoxedInt 1) (BoxedInt 1) = Some True" by (simp add: any_values_def)
  from CompareAndSwap_CompareAndDelete_by_comparison [OF wf,
      of any_values "''a''" "BoxedInt 1" "BoxedSlice [2]"] l e
  obtain this' where
    t: "DefaultAbstractMap_CompareAndSwap string_keys any_values this ''a'' (BoxedInt 1) (BoxedSlice [2])
          = Inr (True, this')"
      "wf_map string_keys this'"
      "call_Load string_keys any_values this' ''a'' = Inr (BoxedSlice [2], True)"
      "\<forall>k'. k' \<noteq> ''a'' \<longrightarrow> call_Load string_keys any_values this' k' = call_Load string_keys any_values this k'"
    by auto
  have e1: "iface_eq any_values (BoxedSlice [2]) (BoxedInt 1) = Some False"
    and e2: "iface_eq any_values (BoxedSlice [2]) (BoxedSlice [2]) = None"
    by (simp_all add: any_values_def)
  from CompareAndSwap_CompareAndDelete_by_comparison [OF t(2),
      of any_values "''a''" "BoxedInt 1" "BoxedInt 3"] t(3) e1
  have a: "DefaultAbstractMap_CompareAndSwap string_keys any_values this' ''a'' (BoxedInt 1) (BoxedInt 3)
       = Inr (False, this')" by auto
  from CompareAndSwap_CompareAndDelete_by_comparison [OF t(2),
      of any_values "''a''" "BoxedSlice [2]" "BoxedInt 3"] t(3) e2
  have b: "DefaultAbstractMap_CompareAndDelete string_keys any_values this' ''a'' (BoxedSlice [2])
       = Inl Uncomparable" by auto
  have "call_Load string_keys any_values this ''b'' = Inr (BoxedNil, False)"
    using s by (auto simp: eval_defs)
  with t(4) have "call_Load string_keys any_values this' ''b'' = Inr (BoxedNil, False)" by simp
  with CompareAndSwap_CompareAndDelete_by_comparison [OF t(2),
      of any_values "''b''" "BoxedSlice [2]" "BoxedInt 3"]
  have c: "DefaultAbstractMap_CompareAndDelete string_keys any_values this' ''b'' (BoxedSlice [2])
       = Inr (False, this')" by blast
  from s t(1,3) a b c show ?thesis by blast
qed

subsection \<open>LoadOrStore\<close>

text \<open>
  C5 as stated fails for a key that does not equal itself: with \<^verbatim>\<open>float64\<close> keys,
  LoadOrStore(NaN, 1) stores and returns (1, false), and a second LoadOrStore(NaN, 2)
  does not find the first value: it stores again and returns (2, false), and the map
  then has two entries.
\<close>

theorem LoadOrStore_NaN_counterexample:
  "\<exists>this1 this2.
     DefaultAbstractMap_LoadOrStore float64_keys int_values (Unordered NewUnorderedMap) NaN 1
       = Inr ((1, False), this1) \<and>
     DefaultAbstractMap_LoadOrStore float64_keys int_values this1 NaN 2 = Inr ((2, False), this2) \<and>
     DefaultAbstractMap_LoadOrStore float64_keys int_values this1 NaN 2 \<noteq> Inr ((1, True), this1) \<and>
     call_Len [] this2 = Inr 2"
  by (simp add: eval_defs)

text \<open>
  C5, amended. On a map in a consistent state: if Load(k) gives (w, true),
  LoadOrStore(k, v) returns (w, true) and leaves the map as it is. If Load(k) gives found
  = false, LoadOrStore(k, v) stores v and returns (v, false), the other keys as before;
  when k equals itself, Load(k) then gives (v, true), and a second LoadOrStore(k, v')
  returns (v, true) and leaves the map as the first call left it; when k does not equal
  itself, Load(k) still finds nothing, and a second LoadOrStore(k, v') stores again and
  returns (v', false). If Load(k) panics (a key that cannot be hashed), so does
  LoadOrStore.
\<close>

theorem LoadOrStore_loads_or_stores:
  assumes "wf_map K this"
  shows "(\<forall>w. call_Load K V this k = Inr (w, True) \<longrightarrow>
            DefaultAbstractMap_LoadOrStore K V this k v = Inr ((w, True), this)) \<and>
         ((\<exists>d. call_Load K V this k = Inr (d, False)) \<longrightarrow>
            (\<exists>this1. DefaultAbstractMap_LoadOrStore K V this k v = Inr ((v, False), this1) \<and>
               wf_map K this1 \<and>
               (\<forall>k'. k' \<noteq> k \<longrightarrow> call_Load K V this1 k' = call_Load K V this k') \<and>
               (if self_equal K k then
                  call_Load K V this1 k = Inr (v, True) \<and>
                  DefaultAbstractMap_LoadOrStore K V this1 k v' = Inr ((v, True), this1)
                else
                  call_Load K V this1 k = Inr (zero_value V, False) \<and>
                  (\<exists>this2. DefaultAbstractMap_LoadOrStore K V this1 k v' = Inr ((v', False), this2))))) \<and>
         (\<forall>e. call_Load K V this k = Inl e \<longrightarrow>
            DefaultAbstractMap_LoadOrStore K V this k v = Inl e)"
proof (intro conjI allI impI)
  fix w assume l: "call_Load K V this k = Inr (w, True)"
  note f = Load_found [OF wf_mapD(2) [OF assms] l]
  show "DefaultAbstractMap_LoadOrStore K V this k v = Inr ((w, True), this)"
    by (rule LoadOrStore_present [OF assms f(2,1)])
next
  assume "\<exists>d. call_Load K V this k = Inr (d, False)"
  then obtain d where l: "call_Load K V this k = Inr (d, False)" by blast
  note m = Load_missed [OF wf_mapD(2) [OF assms] l]
  from LoadOrStore_absent [OF assms m(2,1), of V v] obtain this1 where
    t: "DefaultAbstractMap_LoadOrStore K V this k v = Inr ((v, False), this1)" "wf_map K this1"
       "map_assign K (entries this) k v = Inr (entries this1)" by blast
  note a = Load_after_assign [OF assms t(2) m(1) t(3), of V]
  have "if self_equal K k then
          call_Load K V this1 k = Inr (v, True) \<and>
          DefaultAbstractMap_LoadOrStore K V this1 k v' = Inr ((v, True), this1)
        else
          call_Load K V this1 k = Inr (zero_value V, False) \<and>
          (\<exists>this2. DefaultAbstractMap_LoadOrStore K V this1 k v' = Inr ((v', False), this2))"
  proof (cases "self_equal K k")
    case True
    with a(1) have l1: "call_Load K V this1 k = Inr (v, True)" by simp
    note f1 = Load_found [OF wf_mapD(2) [OF t(2)] l1]
    from LoadOrStore_present [OF t(2) f1(2,1), of V v'] l1 True show ?thesis by simp
  next
    case False
    with a(1) have l1: "call_Load K V this1 k = Inr (zero_value V, False)" by simp
    note m1 = Load_missed [OF wf_mapD(2) [OF t(2)] l1]
    from LoadOrStore_absent [OF t(2) m1(2,1), of V v'] l1 False show ?thesis by auto
  qed
  with t(1,2) a(2)
  show "\<exists>this1. DefaultAbstractMap_LoadOrStore K V this k v = Inr ((v, False), this1) \<and>
          wf_map K this1 \<and>
          (\<forall>k'. k' \<noteq> k \<longrightarrow> call_Load K V this1 k' = call_Load K V this k') \<and>
          (if self_equal K k then
             call_Load K V this1 k = Inr (v, True) \<and>
             DefaultAbstractMap_LoadOrStore K V this1 k v' = Inr ((v, True), this1)
           else
             call_Load K V this1 k = Inr (zero_value V, False) \<and>
             (\<exists>this2. DefaultAbstractMap_LoadOrStore K V this1 k v' = Inr ((v', False), this2)))"
    by blast
next
  fix e assume l: "call_Load K V this k = Inl e"
  note p = Load_panicked [OF wf_mapD(2) [OF assms] l]
  show "DefaultAbstractMap_LoadOrStore K V this k v = Inl e"
    using derived_unhashable(1) [OF assms p(1)] p(2) by simp
qed

theorem LoadOrStore_loads_or_stores_witness:
  "\<exists>this1.
     DefaultAbstractMap_LoadOrStore string_keys int_values (Ordered NewOrderedMap) ''k'' 1
       = Inr ((1, False), this1) \<and>
     call_Load string_keys int_values this1 ''k'' = Inr (1, True) \<and>
     DefaultAbstractMap_LoadOrStore string_keys int_values this1 ''k'' 2 = Inr ((1, True), this1)"
proof -
  have l: "call_Load string_keys int_values (Ordered NewOrderedMap) ''k'' = Inr (0, False)"
    by (simp add: eval_defs)
  have s: "self_equal string_keys ''k''" by (simp add: string_keys_def)
  from LoadOrStore_loads_or_stores [OF wf_New(2), of string_keys int_values "''k''" 1 2] l s
  show ?thesis by auto
qed

subsection \<open>Clear\<close>

lemma slots_mset:
  assumes "enumerates ord m"
  shows "mset (slots ord m) = mset m"
proof -
  from assms have d: "distinct ord" and s0: "set ord = {..<length m}"
    by (simp_all only: enumerates_def)
  from s0 have s: "set ord = set [0..<length m]"
    by (simp only: set_upt lessThan_atLeast0)
  have "mset ord = mset [0..<length m]"
    by (rule set_eq_iff_mset_eq_distinct [THEN iffD1, OF d distinct_upt s])
  then have "image_mset ((!) m) (mset ord) = image_mset ((!) m) (mset [0..<length m])"
    by (rule arg_cong)
  then have "mset (map ((!) m) ord) = mset (map ((!) m) [0..<length m])"
    by (simp only: mset_map)
  then show ?thesis
    by (simp only: slots_map [OF enumerates_subset [OF assms]] map_nth)
qed

lemma pairs_mset: "order_ok ord this \<Longrightarrow> mset (pairs ord this) = mset (entries this)"
  by (cases this) (simp_all add: slots_mset)

text \<open>
  C6 as stated fails for a key that does not equal itself: Delete of such a key removes
  nothing, so Clear leaves its entries in the map. With \<^verbatim>\<open>float64\<close> keys, a map that
  holds NaN and 2 has Len 1 after Clear, and Range still invokes the visitor once.
\<close>

theorem Clear_NaN_counterexample:
  "\<exists>this this'.
     run float64_keys int_values [CallStore NaN 1, CallStore (Number 2) 3 :: (float64, int, unit) call]
       (Unordered NewUnorderedMap) = Inr this \<and>
     order_ok [0, 1] this \<and>
     DefaultAbstractMap_Clear float64_keys [0, 1] this = Inr this' \<and>
     call_Len [] this' = Inr 1 \<and>
     DefaultAbstractMap_Len [0] this' = Inr 1 \<and>
     call_Range [0] this' (counting collect) (0, []) = Inr (1, [(NaN, 1)])"
proof -
  let ?cs = "[CallStore NaN 1, CallStore (Number 2) 3 :: (float64, int, unit) call]"
  let ?m = "Unordered \<lparr>um_DefaultAbstractMap = Some \<lparr>impl = Self\<rparr>,
                          um_m = [(NaN, 1), (Number 2, 3)]\<rparr> :: (float64, int) AbstractMap"
  let ?m' = "Unordered \<lparr>um_DefaultAbstractMap = Some \<lparr>impl = Self\<rparr>,
                           um_m = [(NaN, 1)]\<rparr> :: (float64, int) AbstractMap"
  have "run float64_keys int_values ?cs (Unordered NewUnorderedMap) = Inr ?m"
    by (simp add: eval_defs)
  moreover have "order_ok [0, 1] ?m" by (simp add: enumerates_two)
  moreover have "DefaultAbstractMap_Clear float64_keys [0, 1] ?m = Inr ?m'"
    by (simp add: eval_defs)
  moreover have "call_Len [] ?m' = Inr 1" by (simp add: eval_defs)
  moreover have "DefaultAbstractMap_Len [0] ?m' = Inr 1" by (simp add: eval_defs)
  moreover have "call_Range [0] ?m' (counting collect) (0, []) = Inr (1, [(NaN, 1)])"
    by (simp add: eval_defs)
  ultimately show ?thesis by blast
qed

text \<open>
  C6, amended. Clear collects the keys of the map in one Range pass, which meets every
  entry once, and then deletes each collected key; this removes the entries whose key
  equals itself and leaves the others, in a map of the same kind. After Clear, Load
  finds no key. When every key of the map equals itself, the map is empty afterwards:
  Len is 0 (the override and the derived one), and Range, Keys and Values do not invoke
  their visitor.
\<close>

theorem Clear_empties_the_map:
  assumes "wf_map K this" and "order_ok ord this"
  shows "\<exists>keys this'.
           call_Range ord this (counting append_key) (0, []) = Inr (length keys, keys) \<and>
           impl_Range ord this append_key [] = Inr keys \<and>
           mset keys = mset (map fst (entries this)) \<and>
           delete_each K keys this = Inr this' \<and>
           DefaultAbstractMap_Clear K ord this = Inr this' \<and>
           wf_map K this' \<and> ordered this' = ordered this \<and>
           entries this' = filter (\<lambda>p. \<not> self_equal K (fst p)) (entries this) \<and>
           (\<forall>k. hashable K k \<longrightarrow> call_Load K V this' k = Inr (zero_value V, False)) \<and>
           (list_all (self_equal K) (map fst (entries this)) \<longrightarrow>
              call_Len ord' this' = Inr 0 \<and>
              DefaultAbstractMap_Len ord' this' = Inr 0 \<and>
              (\<forall>f acc. call_Range ord' this' (counting f) (0, acc) = Inr (0, acc)) \<and>
              (\<forall>g acc. DefaultAbstractMap_Keys ord' this' (counting1 g) (0, acc) = Inr (0, acc)) \<and>
              (\<forall>h acc. DefaultAbstractMap_Values ord' this' (counting1 h) (0, acc) = Inr (0, acc)))"
proof -
  let ?keys = "map fst (pairs ord this)"
  have w: "wired this" "concrete this" using assms(1) by (auto dest: wf_mapD)
  have "\<forall>k v a. fst (append_key k v a)" by (simp add: append_key_def)
  from visit_counting_all [OF this, of "pairs ord this" 0 "[]"]
  have pass: "call_Range ord this (counting append_key) (0, []) = Inr (length ?keys, ?keys)"
    by (simp add: call_Range_pairs [OF w(2)] visit_append_key)
  have r: "impl_Range ord this append_key [] = Inr ?keys"
    by (simp add: impl_Range_pairs [OF w] visit_append_key)
  have m: "mset ?keys = mset (map fst (entries this))"
    using pairs_mset [OF assms(2)] by (metis mset_map)
  from Clear_entries [OF assms] obtain this' where
    t: "DefaultAbstractMap_Clear K ord this = Inr this'" "wf_map K this'"
       "ordered this' = ordered this"
       "entries this' = filter (\<lambda>p. \<not> self_equal K (fst p)) (entries this)" by blast
  from t(1) r have d: "delete_each K ?keys this = Inr this'"
    by (simp add: DefaultAbstractMap_Clear_def)
  have w': "wired this'" "concrete this'" "consistent K this'" using t(2) by (auto dest: wf_mapD)
  have l: "\<forall>k. hashable K k \<longrightarrow> call_Load K V this' k = Inr (zero_value V, False)"
    by (simp add: call_Load_contents [OF w'(3)] contents_def t(4) lookup_filter_not_self)
  have e: "list_all (self_equal K) (map fst (entries this)) \<longrightarrow>
        call_Len ord' this' = Inr 0 \<and>
        DefaultAbstractMap_Len ord' this' = Inr 0 \<and>
        (\<forall>f acc. call_Range ord' this' (counting f) (0, acc) = Inr (0, acc)) \<and>
        (\<forall>g acc. DefaultAbstractMap_Keys ord' this' (counting1 g) (0, acc) = Inr (0, acc)) \<and>
        (\<forall>h acc. DefaultAbstractMap_Values ord' this' (counting1 h) (0, acc) = Inr (0, acc))"
  proof
    assume a: "list_all (self_equal K) (map fst (entries this))"
    from a t(4) have e': "entries this' = []"
      by (auto simp: filter_empty_conv list_all_iff)
    then have p: "pairs ord' this' = []" by (rule pairs_empty)
    show "call_Len ord' this' = Inr 0 \<and>
        DefaultAbstractMap_Len ord' this' = Inr 0 \<and>
        (\<forall>f acc. call_Range ord' this' (counting f) (0, acc) = Inr (0, acc)) \<and>
        (\<forall>g acc. DefaultAbstractMap_Keys ord' this' (counting1 g) (0, acc) = Inr (0, acc)) \<and>
        (\<forall>h acc. DefaultAbstractMap_Values ord' this' (counting1 h) (0, acc) = Inr (0, acc))"
      by (simp add: call_Len_entries [OF w'(3)] e' Len_pairs [OF w'(1,2)] p
          call_Range_pairs [OF w'(2)] Keys_pairs [OF w'(1,2)] Values_pairs [OF w'(1,2)])
  qed
  show ?thesis
    apply (intro exI [of _ ?keys] exI [of _ this'] conjI)
    subgoal by (rule pass)
    subgoal by (rule r)
    subgoal by (rule m)
    subgoal by (rule d)
    subgoal by (rule t(1))
    subgoal by (rule t(2))
    subgoal by (rule t(3))
    subgoal by (rule t(4))
    subgoal by (rule l)
    subgoal by (rule e)
    done
qed

theorem Clear_empties_the_map_witness:
  "\<exists>this this'.
      run int_keys int_values [CallStore 1 10, CallStore 2 20 :: (int, int, unit) call]
        (Unordered NewUnorderedMap) = Inr this \<and>
      call_Range [1, 0] this (counting append_key) (0, []) = Inr (2, [2, 1]) \<and>
      DefaultAbstractMap_Clear int_keys [1, 0] this = Inr this' \<and>
      entries this' = [] \<and>
      call_Len [] this' = Inr 0 \<and>
      call_Load int_keys int_values this' 1 = Inr (0, False) \<and>
      call_Range [] this' (counting collect) (0, []) = Inr (0, [])"
proof -
  let ?cs = "[CallStore 1 10, CallStore 2 20 :: (int, int, unit) call]"
  define this :: "(int, int) AbstractMap"
    where "this = Unordered \<lparr>um_DefaultAbstractMap = Some \<lparr>impl = Self\<rparr>, um_m = [(1, 10), (2, 20)]\<rparr>"
  have r: "run int_keys int_values ?cs (Unordered NewUnorderedMap) = Inr this"
    by (simp add: eval_defs this_def)
  have ok: "order_ok [1, 0] this" by (simp add: this_def enumerates_two)
  have p: "call_Range [1, 0] this (counting append_key) (0, []) = Inr (2, [2, 1])"
    by (simp add: eval_defs this_def)
  have a: "list_all (self_equal int_keys) (map fst (entries this))"
    by (simp add: this_def int_keys_def)
  from run_wf [OF wf_New(1) r] have wf: "wf_map int_keys this" by simp
  have h: "hashable int_keys 1" by (simp add: int_keys_def)
  from Clear_empties_the_map [OF wf ok, of int_values "[]"] a h
  obtain this' where "DefaultAbstractMap_Clear int_keys [1, 0] this = Inr this'"
      "entries this' = filter (\<lambda>p. \<not> self_equal int_keys (fst p)) (entries this)"
      "call_Len [] this' = Inr 0"
      "call_Load int_keys int_values this' 1 = Inr (zero_value int_values, False)"
      "\<And>(f :: (int, int, (int \<times> int) list) visitor) acc.
          call_Range [] this' (counting f) (0, acc) = Inr (0, acc)"
    by blast
  moreover from a have "filter (\<lambda>p. \<not> self_equal int_keys (fst p)) (entries this) = []"
    by (auto simp: filter_empty_conv list_all_iff)
  ultimately show ?thesis using r p
    by (intro exI [of _ this] exI [of _ this']) (simp add: int_values_def)
qed

text \<open>
  C7. On an empty map Range, Keys and Values do not invoke the visitor. When the map has
  a first pair in the order of the traversal and the visitor returns false on it, the
  visitor is invoked exactly once, whatever pairs follow. A map that is not empty has a
  first pair. This holds for every concrete map whose helper points back to it, whatever
  its keys.
\<close>

theorem Range_empty_and_early_stop:
  assumes "wired this" and "concrete this"
  shows "(entries this = [] \<longrightarrow>
            call_Range ord this (counting f) (0, acc) = Inr (0, acc) \<and>
            DefaultAbstractMap_Keys ord this (counting1 g) (0, acc) = Inr (0, acc) \<and>
            DefaultAbstractMap_Values ord this (counting1 h) (0, acc) = Inr (0, acc)) \<and>
         (\<forall>k v ps. pairs ord this = (k, v) # ps \<longrightarrow>
            (\<not> fst (f k v acc) \<longrightarrow>
               call_Range ord this (counting f) (0, acc) = Inr (1, snd (f k v acc))) \<and>
            (\<not> fst (g k acc) \<longrightarrow>
               DefaultAbstractMap_Keys ord this (counting1 g) (0, acc) = Inr (1, snd (g k acc))) \<and>
            (\<not> fst (h v acc) \<longrightarrow>
               DefaultAbstractMap_Values ord this (counting1 h) (0, acc) = Inr (1, snd (h v acc)))) \<and>
         (entries this \<noteq> [] \<and> order_ok ord this \<longrightarrow> pairs ord this \<noteq> [])"
proof (intro conjI impI allI)
  assume e: "entries this = []"
  have p: "pairs ord this = []" using e by (rule pairs_empty)
  show "call_Range ord this (counting f) (0, acc) = Inr (0, acc)"
    by (simp add: call_Range_pairs [OF assms(2)] p)
  show "DefaultAbstractMap_Keys ord this (counting1 g) (0, acc) = Inr (0, acc)"
    by (simp add: Keys_pairs [OF assms] p)
  show "DefaultAbstractMap_Values ord this (counting1 h) (0, acc) = Inr (0, acc)"
    by (simp add: Values_pairs [OF assms] p)
next
  fix k v ps
  assume p: "pairs ord this = (k, v) # ps" and stop: "\<not> fst (f k v acc)"
  then show "call_Range ord this (counting f) (0, acc) = Inr (1, snd (f k v acc))"
    by (cases "f k v acc") (simp add: call_Range_pairs [OF assms(2)] counting_def)
next
  fix k v ps
  assume p: "pairs ord this = (k, v) # ps" and stop: "\<not> fst (g k acc)"
  then show "DefaultAbstractMap_Keys ord this (counting1 g) (0, acc) = Inr (1, snd (g k acc))"
    by (cases "g k acc") (simp add: Keys_pairs [OF assms] counting1_def)
next
  fix k v ps
  assume p: "pairs ord this = (k, v) # ps" and stop: "\<not> fst (h v acc)"
  then show "DefaultAbstractMap_Values ord this (counting1 h) (0, acc) = Inr (1, snd (h v acc))"
    by (cases "h v acc") (simp add: Values_pairs [OF assms] counting1_def)
next
  assume a: "entries this \<noteq> [] \<and> order_ok ord this"
  then have "length (pairs ord this) = length (entries this)" by (simp add: pairs_length)
  with a show "pairs ord this \<noteq> []" by auto
qed

theorem Range_empty_and_early_stop_witness:
  "call_Range [] (Ordered NewOrderedMap) (counting (\<lambda>(k::string) (v::int) n. (False, n + v))) (0, 0)
     = Inr (0, 0) \<and>
   (\<exists>this. run string_keys int_values
       [CallStore ''a'' 1, CallStore ''b'' 2, CallStore ''c'' 3 :: (string, int, unit) call]
       (Ordered NewOrderedMap) = Inr this \<and>
     call_Range [] this (counting (\<lambda>(k::string) (v::int) n. (False, n + v))) (0, 0) = Inr (1, 1) \<and>
     DefaultAbstractMap_Keys [] this (counting1 (\<lambda>(k::string) ks. (False, ks @ [k]))) (0, [])
       = Inr (1, [''a'']))"
proof -
  let ?f = "\<lambda>(k::string) (v::int) n. (False, n + v)"
  let ?g = "\<lambda>(k::string) ks. (False, ks @ [k])"
  let ?new = "Ordered NewOrderedMap :: (string, int) AbstractMap"
  let ?cs = "[CallStore ''a'' 1, CallStore ''b'' 2, CallStore ''c'' 3 :: (string, int, unit) call]"
  have w0: "wired ?new" "concrete ?new"
    using wf_New(2) [of string_keys] by (rule wf_mapD)+
  obtain this where r: "run string_keys int_values ?cs ?new = Inr this"
    and p: "pairs [] this = (''a'', 1) # [(''b'', 2), (''c'', 3)]"
    by (simp add: eval_defs eval_nat_numeral)
  from run_wf [OF wf_New(2) r] have w: "wired this" "concrete this"
    by (auto dest: wf_mapD)
  have e: "entries ?new = []" by (rule entries_New)
  from Range_empty_and_early_stop [OF w0, where ord = "[]" and f = ?f and acc = 0
      and g = "\<lambda>k a. (False, a)" and h = "\<lambda>v a. (False, a)"] e
  have a: "call_Range [] ?new (counting ?f) (0, 0) = Inr (0, 0)"
    by blast
  from Range_empty_and_early_stop [OF w, where ord = "[]" and f = ?f and acc = 0
      and g = "\<lambda>k a. (False, a)" and h = "\<lambda>v a. (False, a)"] p
  have b: "call_Range [] this (counting ?f) (0, 0) = Inr (1, 1)"
    by simp
  from Range_empty_and_early_stop [OF w, where ord = "[]" and g = ?g and acc = "[]"
      and f = "\<lambda>k v a. (False, a)" and h = "\<lambda>v a. (False, a)"] p
  have c: "DefaultAbstractMap_Keys [] this (counting1 ?g) (0, []) = Inr (1, [''a''])"
    by simp
  from a b c r show ?thesis by blast
qed

subsection \<open>Len\<close>

lemma enumerates_upt: "enumerates [0..<length m] m"
  by (simp add: enumerates_def lessThan_atLeast0)

lemma order_exists: "\<exists>ord. order_ok ord this"
proof (cases this)
  case (Unordered um)
  with enumerates_upt [of "um_m um"] show ?thesis by auto
qed simp_all

lemma Len_generic_override:
  assumes "wf_map K this" "order_ok ord this"
  shows "call_Len ord this = Inr (length (entries this))"
    "DefaultAbstractMap_Len ord this = call_Len ord this"
proof -
  have w: "wired this" "concrete this" "consistent K this" using assms(1) by (auto dest: wf_mapD)
  show "call_Len ord this = Inr (length (entries this))" by (rule call_Len_entries [OF w(3)])
  then show "DefaultAbstractMap_Len ord this = call_Len ord this"
    by (simp add: Len_pairs [OF w(1,2)] pairs_length [OF assms(2)])
qed

lemma dom_lookup: "dom (lookup K ps) = set (filter (self_equal K) (map fst ps))"
proof (intro set_eqI iffI)
  fix k assume "k \<in> dom (lookup K ps)"
  then obtain v where "lookup K ps k = Some v" by blast
  from lookup_Some_mem [OF this] show "k \<in> set (filter (self_equal K) (map fst ps))"
    by force
next
  fix k assume "k \<in> set (filter (self_equal K) (map fst ps))"
  then have "self_equal K k" "k \<in> fst ` set ps" by simp_all
  with lookup_None_iff [of K k ps] show "k \<in> dom (lookup K ps)" by (auto simp: domIff)
qed

lemma found_keys:
  assumes "wf_map K this"
  shows "{k. \<exists>v. call_Load K V this k = Inr (v, True)} = dom (contents K this)"
proof (intro set_eqI iffI)
  fix k assume "k \<in> {k. \<exists>v. call_Load K V this k = Inr (v, True)}"
  then obtain v where "call_Load K V this k = Inr (v, True)" by blast
  from Load_found(2) [OF wf_mapD(2) [OF assms] this] show "k \<in> dom (contents K this)" by blast
next
  fix k assume "k \<in> dom (contents K this)"
  then obtain v where c: "contents K this k = Some v" by blast
  then have "(k, v) \<in> set (entries this)"
    using lookup_Some_mem [of K "entries this" k v] by (simp add: contents_def)
  with consistent_entries [OF wf_mapD(2) [OF assms]] have "hashable K k"
    by (force simp: entries_ok_def list_all_iff)
  with c show "k \<in> {k. \<exists>v. call_Load K V this k = Inr (v, True)}"
    by (simp add: call_Load_contents [OF wf_mapD(2) [OF assms]])
qed

lemma entries_count:
  assumes "wf_map K this"
  shows "length (entries this) =
           card (dom (contents K this)) + length (filter (\<lambda>p. \<not> self_equal K (fst p)) (entries this))"
proof -
  from consistent_entries [OF wf_mapD(2) [OF assms]]
  have d: "distinct (filter (self_equal K) (map fst (entries this)))" by (simp add: entries_ok_def)
  have "card (dom (contents K this)) = length (filter (self_equal K) (map fst (entries this)))"
    unfolding contents_def dom_lookup using distinct_card [OF d] .
  also have "\<dots> = length (filter (\<lambda>p. self_equal K (fst p)) (entries this))"
    by (simp add: filter_map comp_def)
  finally show ?thesis
    using sum_length_filter_compl [of "\<lambda>p. self_equal K (fst p)" "entries this"] by simp
qed

text \<open>
  C8 as stated fails for a key that does not equal itself: every Store of such a key
  adds an entry and no Delete removes one. With \<^verbatim>\<open>float64\<close> keys, after Store(NaN, 1),
  Store(NaN, 2), Delete(NaN) one distinct key was stored and then deleted, and Len is 2
  (the override and the derived one), while Load finds no key.
\<close>

theorem Len_NaN_counterexample:
  "\<exists>this.
     run float64_keys int_values
       [CallStore NaN 1, CallStore NaN 2, CallDelete NaN :: (float64, int, unit) call]
       (Unordered NewUnorderedMap) = Inr this \<and>
     order_ok [0, 1] this \<and>
     call_Len [0, 1] this = Inr 2 \<and>
     DefaultAbstractMap_Len [0, 1] this = Inr 2 \<and>
     call_Load float64_keys int_values this NaN = Inr (0, False) \<and>
     card (dom (spec_run int_values
       [CallStore NaN 1, CallStore NaN 2, CallDelete NaN :: (float64, int, unit) call] Map.empty)) = 0"
proof -
  let ?cs = "[CallStore NaN 1, CallStore NaN 2, CallDelete NaN :: (float64, int, unit) call]"
  let ?m = "Unordered \<lparr>um_DefaultAbstractMap = Some \<lparr>impl = Self\<rparr>,
                       um_m = [(NaN, 1), (NaN, 2)]\<rparr> :: (float64, int) AbstractMap"
  have "run float64_keys int_values ?cs (Unordered NewUnorderedMap) = Inr ?m"
    by (simp add: eval_defs)
  moreover have "order_ok [0, 1] ?m" by (simp add: enumerates_two)
  moreover have "call_Len [0, 1] ?m = Inr 2" by (simp add: eval_defs)
  moreover have "DefaultAbstractMap_Len [0, 1] ?m = Inr 2" by (simp add: eval_defs)
  moreover have "call_Load float64_keys int_values ?m NaN = Inr (0, False)" by (simp add: eval_defs)
  moreover have "card (dom (spec_run int_values ?cs Map.empty)) = 0" by simp
  ultimately show ?thesis by blast
qed

text \<open>
  C8, amended. For every map reached from \<open>NewUnorderedMap\<close> or \<open>NewOrderedMap\<close> by a
  sequence of calls: the derived Len, which counts by draining Range, returns what the
  override of the concrete map returns, in every order in which the traversal may
  enumerate the map, and this is the number of entries of the map: the number of keys
  Load finds plus the number of entries whose key does not equal itself. The keys Load
  finds are the keys equal to themselves that the specification leaves after these calls
  (the keys stored and not deleted or cleared since). When every key of the calls can be
  hashed and equals itself, Len is the number of keys the specification leaves.
\<close>

theorem Len_counts_entries:
  assumes "this0 = Unordered NewUnorderedMap \<or> this0 = Ordered NewOrderedMap"
    and "run_ok K V cs this0" and "run K V cs this0 = Inr this"
  shows "(\<exists>ord. order_ok ord this) \<and>
         (\<forall>ord. order_ok ord this \<longrightarrow>
            call_Len ord this = Inr (length (entries this)) \<and>
            DefaultAbstractMap_Len ord this = call_Len ord this) \<and>
         length (entries this) =
           card {k. \<exists>v. call_Load K V this k = Inr (v, True)} +
           length (filter (\<lambda>p. \<not> self_equal K (fst p)) (entries this)) \<and>
         {k. \<exists>v. call_Load K V this k = Inr (v, True)} =
           {k. self_equal K k \<and> k \<in> dom (spec_run V cs Map.empty)} \<and>
         (good_calls K cs \<longrightarrow>
            finite (dom (spec_run V cs Map.empty)) \<and>
            {k. \<exists>v. call_Load K V this k = Inr (v, True)} = dom (spec_run V cs Map.empty) \<and>
            (\<forall>ord. call_Len ord this = Inr (card (dom (spec_run V cs Map.empty)))))"
proof -
  from assms(1) have wf0: "wf_map K this0" and e0: "entries this0 = []"
    and c0: "contents K this0 = Map.empty"
    by (auto simp: wf_New um_m_New om_pairs_New contents_New)
  from run_wf [OF wf0 assms(3)] have wf: "wf_map K this" by simp
  have r: "contents K this k = spec_run V cs Map.empty k" if "self_equal K k" for k
    using run_refines [OF wf0 assms(2,3) that] c0 by simp
  have f: "{k. \<exists>v. call_Load K V this k = Inr (v, True)} = dom (contents K this)"
    by (rule found_keys [OF wf])
  have d: "dom (contents K this) = {k. self_equal K k \<and> k \<in> dom (spec_run V cs Map.empty)}"
  proof (intro set_eqI iffI)
    fix k assume k: "k \<in> dom (contents K this)"
    then have "self_equal K k" using contents_not_self [of K k this]
      by (cases "self_equal K k") auto
    with r [of k] k show "k \<in> {k. self_equal K k \<and> k \<in> dom (spec_run V cs Map.empty)}"
      by (auto simp: domIff)
  next
    fix k assume "k \<in> {k. self_equal K k \<and> k \<in> dom (spec_run V cs Map.empty)}"
    with r [of k] show "k \<in> dom (contents K this)" by (auto simp: domIff)
  qed
  have g: "finite (dom (spec_run V cs Map.empty)) \<and>
      {k. \<exists>v. call_Load K V this k = Inr (v, True)} = dom (spec_run V cs Map.empty) \<and>
      (\<forall>ord. call_Len ord this = Inr (card (dom (spec_run V cs Map.empty))))"
    if gc: "good_calls K cs"
  proof -
    have named: "self_equal K k" if "k \<in> (\<Union>c \<in> set cs. set (call_keys c))" for k
      using gc that by (auto simp: good_calls_def good_key_def list_all_iff)
    have s: "dom (contents K this) = dom (spec_run V cs Map.empty)"
    proof -
      have "k \<notin> dom (spec_run V cs Map.empty)" if n: "\<not> self_equal K k" for k
      proof -
        from n named have "\<forall>c \<in> set cs. k \<notin> set (call_keys c)" by blast
        from spec_run_unnamed [OF _ this, of Map.empty V] show ?thesis by (simp add: domIff)
      qed
      with d show ?thesis by blast
    qed
    have "self_equal K (fst p)" if "p \<in> set (entries this)" for p
      using run_keys [OF wf0 assms(3)] that named unfolding e0 by auto
    then have "filter (\<lambda>p. \<not> self_equal K (fst p)) (entries this) = []"
      by (simp add: filter_empty_conv)
    with entries_count [OF wf] s have "length (entries this) = card (dom (spec_run V cs Map.empty))"
      by simp
    with call_Len_entries [OF wf_mapD(2) [OF wf]] f s spec_run_finite [of Map.empty V cs]
    show ?thesis by simp
  qed
  show ?thesis
    apply (intro conjI)
    subgoal by (rule order_exists)
    subgoal using Len_generic_override [OF wf] by blast
    subgoal using entries_count [OF wf] f by simp
    subgoal using f d by simp
    subgoal using g by blast
    done
qed

theorem Len_counts_entries_witness:
  "\<exists>this.
     run string_keys int_values
       [CallStore ''a'' 1, CallStore ''b'' 2, CallStore ''a'' 3, CallLoadOrStore ''c'' 4,
        CallDelete ''b'', CallLen [1, 0] :: (string, int, unit) call]
       (Unordered NewUnorderedMap) = Inr this \<and>
     call_Len [0, 1] this = Inr 2 \<and>
     DefaultAbstractMap_Len [1, 0] this = Inr 2 \<and>
     card (dom (spec_run int_values
       [CallStore ''a'' 1, CallStore ''b'' 2, CallStore ''a'' 3, CallLoadOrStore ''c'' 4,
        CallDelete ''b'', CallLen [1, 0] :: (string, int, unit) call] Map.empty)) = 2"
proof -
  let ?cs = "[CallStore ''a'' 1, CallStore ''b'' 2, CallStore ''a'' 3, CallLoadOrStore ''c'' 4,
        CallDelete ''b'', CallLen [1, 0] :: (string, int, unit) call]"
  define this :: "(string, int) AbstractMap"
    where "this = Unordered \<lparr>um_DefaultAbstractMap = Some \<lparr>impl = Self\<rparr>, um_m = [(''a'', 3), (''c'', 4)]\<rparr>"
  have r: "run string_keys int_values ?cs (Unordered NewUnorderedMap) = Inr this"
    by (simp add: eval_defs this_def)
  have ok: "run_ok string_keys int_values ?cs (Unordered NewUnorderedMap)"
    by (simp add: eval_defs enumerates_two)
  have o: "order_ok [0, 1] this" "order_ok [1, 0] this"
    by (simp_all add: this_def enumerates_two)
  have g: "good_calls string_keys ?cs"
    by (simp add: good_calls_def good_key_def string_keys_def)
  have l: "call_Len [0, 1] this = Inr 2" by (simp add: this_def eval_defs)
  from Len_counts_entries [OF disjI1 [OF refl] ok r] g o(2) l
  have "DefaultAbstractMap_Len [1, 0] this = call_Len [1, 0] this"
    and "call_Len [0, 1] this = Inr (card (dom (spec_run int_values ?cs Map.empty)))"
    by blast+
  with l r have "call_Len [0, 1] this = Inr 2" "DefaultAbstractMap_Len [1, 0] this = Inr 2"
    "card (dom (spec_run int_values ?cs Map.empty)) = 2"
    by (simp_all add: this_def eval_defs)
  with r show ?thesis by blast
qed

subsection \<open>Swap\<close>




subsection \<open>The stubs\<close>

lemma derived_no_stub:
  assumes "wf_map K this" "e = NotImplemented \<or> e = NilDereference"
  shows "DefaultAbstractMap_Clear K ord this \<noteq> Inl e"
    "DefaultAbstractMap_Len ord this \<noteq> Inl e"
    "DefaultAbstractMap_LoadAndDelete K V this k \<noteq> Inl e"
    "DefaultAbstractMap_LoadOrStore K V this k v \<noteq> Inl e"
    "DefaultAbstractMap_Swap K V this k v \<noteq> Inl e"
    "DefaultAbstractMap_CompareAndSwap K V this k old new \<noteq> Inl e"
    "DefaultAbstractMap_CompareAndDelete K V this k old \<noteq> Inl e"
    "DefaultAbstractMap_Keys ord this g acc \<noteq> Inl e"
    "DefaultAbstractMap_Values ord this h acc \<noteq> Inl e"
proof -
  have w: "wired this" "concrete this" using assms(1) by (auto dest: wf_mapD)
  show "DefaultAbstractMap_Clear K ord this \<noteq> Inl e"
    using Clear_total [OF assms(1), of ord] by auto
  show "DefaultAbstractMap_Len ord this \<noteq> Inl e" by (simp add: Len_pairs [OF w])
  show "DefaultAbstractMap_Keys ord this g acc \<noteq> Inl e" by (simp add: Keys_pairs [OF w])
  show "DefaultAbstractMap_Values ord this h acc \<noteq> Inl e" by (simp add: Values_pairs [OF w])
  have x: "r \<noteq> Inl e" if "exec K V c this = state_of r"
    for c :: "('a, 'b, unit) call" and r :: "error + 'r \<times> ('a, 'b) AbstractMap"
  proof
    assume "r = Inl e"
    with that have "exec K V c this = Inl e" by (simp add: state_of_def)
    from exec_panics [OF assms(1) this] assms(2) show False by auto
  qed
  show "DefaultAbstractMap_LoadAndDelete K V this k \<noteq> Inl e"
    by (rule x [of "CallLoadAndDelete k"]) simp
  show "DefaultAbstractMap_LoadOrStore K V this k v \<noteq> Inl e"
    by (rule x [of "CallLoadOrStore k v"]) simp
  show "DefaultAbstractMap_Swap K V this k v \<noteq> Inl e"
    by (rule x [of "CallSwap k v"]) simp
  show "DefaultAbstractMap_CompareAndSwap K V this k old new \<noteq> Inl e"
    by (rule x [of "CallCompareAndSwap k old new"]) simp
  show "DefaultAbstractMap_CompareAndDelete K V this k old \<noteq> Inl e"
    by (rule x [of "CallCompareAndDelete k old"]) simp
qed

text \<open>On a scaffold, with no concrete backend, the derived operations do reach the stubs;
  so they do on a concrete map whose helper was given a scaffold instead of the map
  itself. On a concrete map built without the helper they dereference nil.\<close>

lemma Scaffold_aborts:
  assumes "this = Scaffold (Some (NewDefaultAbstractMap Self)) \<or>
           this = Unordered \<lparr>um_DefaultAbstractMap = Some (NewDefaultAbstractMap ToScaffold), um_m = m\<rparr>"
  shows "DefaultAbstractMap_Clear K ord this = Inl NotImplemented"
    "DefaultAbstractMap_Len ord this = Inl NotImplemented"
    "DefaultAbstractMap_LoadAndDelete K V this k = Inl NotImplemented"
    "DefaultAbstractMap_LoadOrStore K V this k v = Inl NotImplemented"
    "DefaultAbstractMap_Swap K V this k v = Inl NotImplemented"
    "DefaultAbstractMap_CompareAndSwap K V this k old new = Inl NotImplemented"
    "DefaultAbstractMap_CompareAndDelete K V this k old = Inl NotImplemented"
    "DefaultAbstractMap_Keys ord this g acc = Inl NotImplemented"
    "DefaultAbstractMap_Values ord this h acc = Inl NotImplemented"
  using assms
  by (auto simp: DefaultAbstractMap_Clear_def DefaultAbstractMap_Len_def
      DefaultAbstractMap_LoadAndDelete_def DefaultAbstractMap_LoadOrStore_def
      DefaultAbstractMap_Swap_def DefaultAbstractMap_CompareAndSwap_def
      DefaultAbstractMap_CompareAndDelete_def DefaultAbstractMap_Keys_def
      DefaultAbstractMap_Values_def impl_Load_def impl_Range_def receiver_impl_def
      NewDefaultAbstractMap_def DefaultAbstractMap_Load_def DefaultAbstractMap_Range_def)

lemma unwired_dereferences_nil:
  assumes "this = Unordered \<lparr>um_DefaultAbstractMap = None, um_m = m\<rparr> \<or>
           this = Ordered \<lparr>om_DefaultAbstractMap = None, om_m = i, om_l = l\<rparr>"
  shows "DefaultAbstractMap_Clear K ord this = Inl NilDereference"
    "DefaultAbstractMap_LoadOrStore K V this k v = Inl NilDereference"
    "DefaultAbstractMap_Swap K V this k v = Inl NilDereference"
    "DefaultAbstractMap_Keys ord this g acc = Inl NilDereference"
  using assms
  by (auto simp: DefaultAbstractMap_Clear_def DefaultAbstractMap_LoadOrStore_def
      DefaultAbstractMap_Swap_def DefaultAbstractMap_Keys_def impl_Load_def impl_Range_def
      receiver_impl_def)

text \<open>
  C10. On a map constructed by \<open>NewUnorderedMap\<close> or \<open>NewOrderedMap\<close>, in every state that
  a sequence of calls reaches, the helper points back to the map, which is one of the two
  concrete maps, so that \<^verbatim>\<open>m.impl.Load\<close>, \<^verbatim>\<open>m.impl.Store\<close>, \<^verbatim>\<open>m.impl.Delete\<close> and
  \<^verbatim>\<open>m.impl.Range\<close> are the methods of the concrete map; none of the derived operations
  (Clear, Len, LoadAndDelete, LoadOrStore, Swap, CompareAndSwap, CompareAndDelete, Keys,
  Values) aborts with "not implemented", and no further sequence of calls does.
\<close>

theorem derived_operations_never_reach_stub:
  assumes "this0 = Unordered NewUnorderedMap \<or> this0 = Ordered NewOrderedMap"
    and "run K V cs this0 = Inr this"
  shows "receiver_impl this = Inr this \<and> concrete this \<and>
         impl_Load K V this k = call_Load K V this k \<and>
         impl_Store K this k v = call_Store K this k v \<and>
         impl_Delete K this k = call_Delete K this k \<and>
         impl_Range ord this f acc = call_Range ord this f acc \<and>
         call_Load K V this k \<noteq> Inl NotImplemented \<and>
         call_Store K this k v \<noteq> Inl NotImplemented \<and>
         call_Delete K this k \<noteq> Inl NotImplemented \<and>
         call_Range ord this f acc \<noteq> Inl NotImplemented \<and>
         DefaultAbstractMap_Clear K ord this \<noteq> Inl NotImplemented \<and>
         DefaultAbstractMap_Len ord this \<noteq> Inl NotImplemented \<and>
         DefaultAbstractMap_LoadAndDelete K V this k \<noteq> Inl NotImplemented \<and>
         DefaultAbstractMap_LoadOrStore K V this k v \<noteq> Inl NotImplemented \<and>
         DefaultAbstractMap_Swap K V this k v \<noteq> Inl NotImplemented \<and>
         DefaultAbstractMap_CompareAndSwap K V this k old new \<noteq> Inl NotImplemented \<and>
         DefaultAbstractMap_CompareAndDelete K V this k old \<noteq> Inl NotImplemented \<and>
         DefaultAbstractMap_Keys ord this g acc \<noteq> Inl NotImplemented \<and>
         DefaultAbstractMap_Values ord this h acc \<noteq> Inl NotImplemented \<and>
         run K V cs' this \<noteq> Inl NotImplemented"
proof -
  from assms(1) have "wf_map K this0" by (auto simp: wf_New)
  from run_wf [OF this assms(2)] have wf: "wf_map K this" by simp
  then have w: "wired this" "concrete this" by (auto dest: wf_mapD)
  have r: "run K V cs' this \<noteq> Inl NotImplemented"
    using run_panics [OF wf, of V cs'] by auto
  have l: "call_Load K V this k \<noteq> Inl NotImplemented"
    by (simp add: call_Load_contents [OF wf_mapD(2) [OF wf]])
  have s: "call_Store K this k v \<noteq> Inl NotImplemented"
    using call_Store_error [OF wf, of k v] by auto
  have d: "call_Delete K this k \<noteq> Inl NotImplemented"
    using call_Delete_error [OF wf, of k] by auto
  have g: "call_Range ord this f acc \<noteq> Inl NotImplemented"
    by (simp add: call_Range_pairs [OF w(2)])
  have i: "receiver_impl this = Inr this" using w(1) by (simp add: wired_def)
  note n = derived_no_stub [OF wf, of NotImplemented, simplified]
  show ?thesis
    apply (intro conjI)
    subgoal by (rule i)
    subgoal by (rule w(2))
    subgoal by (rule impl_wired(1) [OF w(1)])
    subgoal by (rule impl_wired(2) [OF w(1)])
    subgoal by (rule impl_wired(3) [OF w(1)])
    subgoal by (rule impl_wired(4) [OF w(1)])
    subgoal by (rule l)
    subgoal by (rule s)
    subgoal by (rule d)
    subgoal by (rule g)
    subgoal by (rule n(1))
    subgoal by (rule n(2))
    subgoal by (rule n(3))
    subgoal by (rule n(4))
    subgoal by (rule n(5))
    subgoal by (rule n(6))
    subgoal by (rule n(7))
    subgoal by (rule n(8))
    subgoal by (rule n(9))
    subgoal by (rule r)
    done
qed

theorem derived_operations_never_reach_stub_witness:
  "\<exists>this. run string_keys int_values [CallStore ''a'' 1, CallStore ''b'' 2 :: (string, int, unit) call]
            (Unordered NewUnorderedMap) = Inr this \<and>
          receiver_impl this = Inr this \<and>
          DefaultAbstractMap_Swap string_keys int_values this ''a'' 5 \<noteq> Inl NotImplemented \<and>
          DefaultAbstractMap_Clear string_keys [1, 0] this \<noteq> Inl NotImplemented"
proof -
  let ?cs = "[CallStore ''a'' 1, CallStore ''b'' 2 :: (string, int, unit) call]"
  obtain this where r: "run string_keys int_values ?cs (Unordered NewUnorderedMap) = Inr this"
    by (simp add: eval_defs)
  from derived_operations_never_reach_stub [OF disjI1 [OF refl] r,
      where k = "''a''" and v = 5 and ord = "[1, 0]" and old = 0 and new = 0 and cs' = "[]"
        and f = "\<lambda>k v a. (True, a)" and g = "\<lambda>k a. (True, a)" and h = "\<lambda>v a. (True, a)"
        and acc = "()"] r
  show ?thesis by blast
qed

end
